theory Spec2Isabelle
  imports Main
begin

section \<open>Data model of script.js\<close>

text \<open>
  The game logic of \<^verbatim>\<open>script.js\<close> (\<^verbatim>\<open>script-commented.js\<close> is the same code with
  comments). A player is one of the strings \<^verbatim>\<open>"X"\<close> and \<^verbatim>\<open>"O"\<close>, here
  \<open>PlayerX\<close> and \<open>PlayerO\<close>; a size is one of \<^verbatim>\<open>"small"\<close>, \<^verbatim>\<open>"medium"\<close>
  and \<^verbatim>\<open>"large"\<close>, the values of the three piece buttons. A piece is the object
  \<^verbatim>\<open>{ player, size }\<close>.
\<close>

datatype player = PlayerX | PlayerO

datatype piece_size = Small | Medium | Large

record piece =
  player :: player
  psize :: piece_size

text \<open>
  \<^verbatim>\<open>piecesLeft = { X: {small, medium, large}, O: {small, medium, large} }\<close>.
  The counts are JavaScript numbers that are only ever incremented and decremented by one,
  so they are integers (and may go below zero when a caller skips the legality check).
\<close>

record counts =
  small :: int
  medium :: int
  large :: int

record inventory =
  leftX :: counts
  leftO :: counts

text \<open>
  \<^verbatim>\<open>board\<close> is an array of stacks; a stack is an array of pieces whose last
  element is the top (\<^verbatim>\<open>push\<close> and \<^verbatim>\<open>pop\<close> work at the end).
  The script creates it with \<^verbatim>\<open>Array(9)\<close> and never changes its length.
\<close>

record state =
  board :: "piece list list"
  piecesLeft :: inventory

text \<open>
  A move is \<^verbatim>\<open>{ type:"place", index, size }\<close> or
  \<^verbatim>\<open>{ type:"move", from, to, size }\<close>.
\<close>

datatype move = Place nat piece_size | Move nat nat piece_size

text \<open>
  What can go wrong in the script: \<open>TypeError\<close> is the exception thrown when a property of
  \<^verbatim>\<open>undefined\<close> is read (a cell index outside the board). \<open>UndefinedPushed\<close> marks
  the one situation that throws nothing but leaves the state space of this model:
  \<^verbatim>\<open>pop()\<close> on an empty stack returns \<^verbatim>\<open>undefined\<close>, and the script then
  pushes that value onto another stack.
\<close>

datatype error = TypeError | UndefinedPushed

section \<open>Reading and writing the state\<close>

definition countOf :: "counts \<Rightarrow> piece_size \<Rightarrow> int" where
  "countOf c sz = (case sz of Small \<Rightarrow> small c | Medium \<Rightarrow> medium c | Large \<Rightarrow> large c)"

definition setCount :: "counts \<Rightarrow> piece_size \<Rightarrow> int \<Rightarrow> counts" where
  "setCount c sz v =
     (case sz of Small \<Rightarrow> c\<lparr>small := v\<rparr> | Medium \<Rightarrow> c\<lparr>medium := v\<rparr> | Large \<Rightarrow> c\<lparr>large := v\<rparr>)"

text \<open>\<^verbatim>\<open>piecesLeft[player][size]\<close>\<close>

definition remaining :: "inventory \<Rightarrow> player \<Rightarrow> piece_size \<Rightarrow> int" where
  "remaining pl p sz =
     (case p of PlayerX \<Rightarrow> countOf (leftX pl) sz | PlayerO \<Rightarrow> countOf (leftO pl) sz)"

text \<open>\<^verbatim>\<open>piecesLeft[player][size] = v\<close>\<close>

definition setRemaining :: "inventory \<Rightarrow> player \<Rightarrow> piece_size \<Rightarrow> int \<Rightarrow> inventory" where
  "setRemaining pl p sz v =
     (case p of PlayerX \<Rightarrow> pl\<lparr>leftX := setCount (leftX pl) sz v\<rparr>
              | PlayerO \<Rightarrow> pl\<lparr>leftO := setCount (leftO pl) sz v\<rparr>)"

text \<open>\<^verbatim>\<open>board[i]\<close>: \<open>None\<close> is \<^verbatim>\<open>undefined\<close>.\<close>

definition stackAt :: "piece list list \<Rightarrow> nat \<Rightarrow> piece list option" where
  "stackAt b i = (if i < length b then Some (b ! i) else None)"

text \<open>\<^verbatim>\<open>stack[stack.length - 1]\<close>: \<open>None\<close> is \<^verbatim>\<open>undefined\<close>.\<close>

definition topOf :: "piece list \<Rightarrow> piece option" where
  "topOf stack = (if stack = [] then None else Some (last stack))"

text \<open>\<^verbatim>\<open>board[a][board[a].length - 1]\<close>\<close>

definition topAt :: "piece list list \<Rightarrow> nat \<Rightarrow> error + piece option" where
  "topAt b i = (case stackAt b i of None \<Rightarrow> Inl TypeError | Some stack \<Rightarrow> Inr (topOf stack))"

section \<open>Legality\<close>

definition sizeOrder :: "piece_size list" where
  "sizeOrder = [Small, Medium, Large]"

text \<open>\<^verbatim>\<open>Array.prototype.indexOf\<close>: the first position of the value, or \<open>-1\<close>.\<close>

fun indexOf :: "'a list \<Rightarrow> 'a \<Rightarrow> int" where
  "indexOf [] v = -1"
| "indexOf (y # ys) v =
     (if y = v then 0 else (let r = indexOf ys v in if r < 0 then -1 else r + 1))"

definition canPlace :: "nat \<Rightarrow> player \<Rightarrow> piece_size \<Rightarrow> bool \<Rightarrow> state \<Rightarrow> error + bool" where
  "canPlace index p sz isMove s =
     (let newVal = indexOf sizeOrder sz in
      case stackAt (board s) index of
        None \<Rightarrow> Inl TypeError
      | Some stack \<Rightarrow>
          (let topPiece = topOf stack;
               topVal = (case topPiece of Some t \<Rightarrow> indexOf sizeOrder (psize t) | None \<Rightarrow> -1)
           in if newVal \<le> topVal then Inr False
              else if \<not> isMove \<and> remaining (piecesLeft s) p sz \<le> 0 then Inr False
              else Inr True))"

section \<open>Win detection\<close>

definition wins :: "(nat \<times> nat \<times> nat) list" where
  "wins = [(0,1,2),(3,4,5),(6,7,8),(0,3,6),(1,4,7),(2,5,8),(0,4,8),(2,4,6)]"

text \<open>
  \<^verbatim>\<open>A && B && C && A.player === B.player && B.player === C.player\<close>
\<close>

fun sameOwner :: "piece option \<Rightarrow> piece option \<Rightarrow> piece option \<Rightarrow> bool" where
  "sameOwner (Some A) (Some B) (Some C) = (player A = player B \<and> player B = player C)"
| "sameOwner _ _ _ = False"

fun checkWinnerLoop :: "(nat \<times> nat \<times> nat) list \<Rightarrow> state \<Rightarrow> error + bool" where
  "checkWinnerLoop [] s = Inr False"
| "checkWinnerLoop ((a, b, c) # rest) s =
     (case topAt (board s) a of Inl e \<Rightarrow> Inl e | Inr A \<Rightarrow>
       (case topAt (board s) b of Inl e \<Rightarrow> Inl e | Inr B \<Rightarrow>
         (case topAt (board s) c of Inl e \<Rightarrow> Inl e | Inr C \<Rightarrow>
            if sameOwner A B C then Inr True else checkWinnerLoop rest s)))"

definition checkWinner :: "state \<Rightarrow> error + bool" where
  "checkWinner s = checkWinnerLoop wins s"

fun detectWinnerLoop :: "(nat \<times> nat \<times> nat) list \<Rightarrow> state \<Rightarrow> error + player option" where
  "detectWinnerLoop [] s = Inr None"
| "detectWinnerLoop ((a, b, c) # rest) s =
     (case topAt (board s) a of Inl e \<Rightarrow> Inl e | Inr A \<Rightarrow>
       (case topAt (board s) b of Inl e \<Rightarrow> Inl e | Inr B \<Rightarrow>
         (case topAt (board s) c of Inl e \<Rightarrow> Inl e | Inr C \<Rightarrow>
            if sameOwner A B C then Inr (map_option player A)
            else detectWinnerLoop rest s)))"

definition detectWinnerPlayer :: "state \<Rightarrow> error + player option" where
  "detectWinnerPlayer s = detectWinnerLoop wins s"

section \<open>Applying and undoing a move\<close>

text \<open>
  \<^verbatim>\<open>applyMove\<close> ends with \<^verbatim>\<open>renderBoard()\<close>, which redraws the page from the
  board and changes neither the board nor the inventory. When the source stack of a
  \<^verbatim>\<open>"move"\<close> is empty, \<^verbatim>\<open>pop()\<close> returns \<^verbatim>\<open>undefined\<close> and that value is
  pushed onto the destination.
\<close>

definition applyMove :: "move \<Rightarrow> player \<Rightarrow> state \<Rightarrow> error + state" where
  "applyMove m p s =
     (case m of
        Place index sz \<Rightarrow>
          (case stackAt (board s) index of
             None \<Rightarrow> Inl TypeError
           | Some stack \<Rightarrow>
               Inr (s\<lparr>board := (board s)[index := stack @ [\<lparr>player = p, psize = sz\<rparr>]],
                      piecesLeft := setRemaining (piecesLeft s) p sz
                                      (remaining (piecesLeft s) p sz - 1)\<rparr>))
      | Move from to sz \<Rightarrow>
          (case stackAt (board s) from of
             None \<Rightarrow> Inl TypeError
           | Some src \<Rightarrow>
               (let b1 = (board s)[from := butlast src] in
                case stackAt b1 to of
                  None \<Rightarrow> Inl TypeError
                | Some dst \<Rightarrow>
                    (case topOf src of
                       None \<Rightarrow> Inl UndefinedPushed
                     | Some mv \<Rightarrow> Inr (s\<lparr>board := b1[to := dst @ [mv]]\<rparr>)))))"

definition undoMoveGeneric :: "move \<Rightarrow> player \<Rightarrow> state \<Rightarrow> error + state" where
  "undoMoveGeneric m p s =
     (case m of
        Place index sz \<Rightarrow>
          (case stackAt (board s) index of
             None \<Rightarrow> Inl TypeError
           | Some stack \<Rightarrow>
               Inr (s\<lparr>board := (board s)[index := butlast stack],
                      piecesLeft := setRemaining (piecesLeft s) p sz
                                      (remaining (piecesLeft s) p sz + 1)\<rparr>))
      | Move from to sz \<Rightarrow>
          (case stackAt (board s) to of
             None \<Rightarrow> Inl TypeError
           | Some dst \<Rightarrow>
               (let b1 = (board s)[to := butlast dst] in
                case stackAt b1 from of
                  None \<Rightarrow> Inl TypeError
                | Some src \<Rightarrow>
                    (case topOf dst of
                       None \<Rightarrow> Inl UndefinedPushed
                     | Some mv \<Rightarrow> Inr (s\<lparr>board := b1[from := src @ [mv]]\<rparr>)))))"

section \<open>Move generation\<close>

text \<open>
  The inner loop of the placements, \<^verbatim>\<open>for (let i = 0; i < 9; i++)\<close>, from cell \<open>i\<close> on,
  with the moves pushed so far.
\<close>

function placeCells :: "player \<Rightarrow> piece_size \<Rightarrow> state \<Rightarrow> nat \<Rightarrow> move list \<Rightarrow> error + move list" where
  "placeCells p sz s i moves =
     (if i < 9 then
        (case canPlace i p sz False s of
           Inl e \<Rightarrow> Inl e
         | Inr ok \<Rightarrow> placeCells p sz s (i + 1) (if ok then moves @ [Place i sz] else moves))
      else Inr moves)"
  by pat_completeness auto
termination
  by (relation "measure (\<lambda>(p, sz, s, i, moves). 9 - i)") auto

text \<open>The outer loop of the placements, \<^verbatim>\<open>for (let s of sizeOrder)\<close>.\<close>

fun placeSizes :: "piece_size list \<Rightarrow> player \<Rightarrow> state \<Rightarrow> move list \<Rightarrow> error + move list" where
  "placeSizes [] p s moves = Inr moves"
| "placeSizes (sz # rest) p s moves =
     (if 0 < remaining (piecesLeft s) p sz then
        (case placeCells p sz s 0 moves of
           Inl e \<Rightarrow> Inl e
         | Inr moves' \<Rightarrow> placeSizes rest p s moves')
      else placeSizes rest p s moves)"

text \<open>
  The inner loop of the relocations, \<^verbatim>\<open>for (let to = 0; to < 9; to++)\<close>;
  \<^verbatim>\<open>to !== from && canPlace(...)\<close> does not call \<^verbatim>\<open>canPlace\<close> on the source cell.
\<close>

function moveTargets :: "player \<Rightarrow> nat \<Rightarrow> piece \<Rightarrow> state \<Rightarrow> nat \<Rightarrow> move list \<Rightarrow> error + move list" where
  "moveTargets p from topPiece s to moves =
     (if to < 9 then
        (if to \<noteq> from then
           (case canPlace to p (psize topPiece) True s of
              Inl e \<Rightarrow> Inl e
            | Inr ok \<Rightarrow>
                moveTargets p from topPiece s (to + 1)
                  (if ok then moves @ [Move from to (psize topPiece)] else moves))
         else moveTargets p from topPiece s (to + 1) moves)
      else Inr moves)"
  by pat_completeness auto
termination
  by (relation "measure (\<lambda>(p, from, topPiece, s, to, moves). 9 - to)") auto

text \<open>The outer loop of the relocations, \<^verbatim>\<open>for (let from = 0; from < 9; from++)\<close>.\<close>

function moveSources :: "player \<Rightarrow> state \<Rightarrow> nat \<Rightarrow> move list \<Rightarrow> error + move list" where
  "moveSources p s from moves =
     (if from < 9 then
        (case stackAt (board s) from of
           None \<Rightarrow> Inl TypeError
         | Some stack \<Rightarrow>
             (if stack = [] then moveSources p s (from + 1) moves
              else
                (let topPiece = last stack in
                 if player topPiece \<noteq> p then moveSources p s (from + 1) moves
                 else
                   (case moveTargets p from topPiece s 0 moves of
                      Inl e \<Rightarrow> Inl e
                    | Inr moves' \<Rightarrow> moveSources p s (from + 1) moves'))))
      else Inr moves)"
  by pat_completeness auto
termination
  by (relation "measure (\<lambda>(p, s, from, moves). 9 - from)") auto

definition generateAllMoves :: "player \<Rightarrow> state \<Rightarrow> error + move list" where
  "generateAllMoves p s =
     (case placeSizes sizeOrder p s [] of
        Inl e \<Rightarrow> Inl e
      | Inr moves \<Rightarrow> moveSources p s 0 moves)"

section \<open>Heuristic strategies\<close>

text \<open>
  The search functions work on the one shared board: every function below takes the state
  and returns the state it leaves behind together with its result.
\<close>

fun findWinningLoop :: "move list \<Rightarrow> player \<Rightarrow> state \<Rightarrow> error + (move option \<times> state)" where
  "findWinningLoop [] p s = Inr (None, s)"
| "findWinningLoop (m # ms) p s =
     (case applyMove m p s of Inl e \<Rightarrow> Inl e | Inr s1 \<Rightarrow>
       (case checkWinner s1 of Inl e \<Rightarrow> Inl e | Inr win \<Rightarrow>
         (case undoMoveGeneric m p s1 of Inl e \<Rightarrow> Inl e | Inr s2 \<Rightarrow>
            if win then Inr (Some m, s2) else findWinningLoop ms p s2)))"

definition findWinningMoveGeneric :: "player \<Rightarrow> state \<Rightarrow> error + (move option \<times> state)" where
  "findWinningMoveGeneric p s =
     (case generateAllMoves p s of Inl e \<Rightarrow> Inl e | Inr moves \<Rightarrow> findWinningLoop moves p s)"

fun findBlockingLoop :: "move list \<Rightarrow> player \<Rightarrow> player \<Rightarrow> state \<Rightarrow> error + (move option \<times> state)" where
  "findBlockingLoop [] botP opponent s = Inr (None, s)"
| "findBlockingLoop (m # ms) botP opponent s =
     (case applyMove m botP s of Inl e \<Rightarrow> Inl e | Inr s1 \<Rightarrow>
       (case findWinningMoveGeneric opponent s1 of Inl e \<Rightarrow> Inl e | Inr (stillWin, s2) \<Rightarrow>
         (case undoMoveGeneric m botP s2 of Inl e \<Rightarrow> Inl e | Inr s3 \<Rightarrow>
            if stillWin = None then Inr (Some m, s3) else findBlockingLoop ms botP opponent s3)))"

definition findBlockingMoveGeneric :: "player \<Rightarrow> state \<Rightarrow> error + (move option \<times> state)" where
  "findBlockingMoveGeneric botP s =
     (let opponent = (if botP = PlayerO then PlayerX else PlayerO) in
      case findWinningMoveGeneric opponent s of
        Inl e \<Rightarrow> Inl e
      | Inr (oppWin, s1) \<Rightarrow>
          if oppWin = None then Inr (None, s1)
          else (case generateAllMoves botP s1 of
                  Inl e \<Rightarrow> Inl e
                | Inr moves \<Rightarrow> findBlockingLoop moves botP opponent s1))"

section \<open>Minimax\<close>

text \<open>
  Scores are JavaScript numbers: integers between \<open>-100\<close> and \<open>100\<close>, and the two
  infinities that start the running best score and the search window.
\<close>

datatype number = NegInfinity | Finite int | PosInfinity

fun number_le :: "number \<Rightarrow> number \<Rightarrow> bool" where
  "number_le NegInfinity y = True"
| "number_le (Finite a) NegInfinity = False"
| "number_le (Finite a) (Finite b) = (a \<le> b)"
| "number_le (Finite a) PosInfinity = True"
| "number_le PosInfinity PosInfinity = True"
| "number_le PosInfinity y = False"

definition number_gt :: "number \<Rightarrow> number \<Rightarrow> bool" where
  "number_gt x y = (\<not> number_le x y)"

definition Math_max :: "number \<Rightarrow> number \<Rightarrow> number" where
  "Math_max x y = (if number_le x y then y else x)"

definition Math_min :: "number \<Rightarrow> number \<Rightarrow> number" where
  "Math_min x y = (if number_le x y then x else y)"

function minimax :: "int \<Rightarrow> bool \<Rightarrow> player \<Rightarrow> player \<Rightarrow> number \<Rightarrow> number \<Rightarrow> int \<Rightarrow> state
                      \<Rightarrow> error + (number \<times> state)"
  and minimaxLoop :: "move list \<Rightarrow> player \<Rightarrow> number \<Rightarrow> int \<Rightarrow> bool \<Rightarrow> player \<Rightarrow> player \<Rightarrow> number \<Rightarrow> number
                      \<Rightarrow> int \<Rightarrow> state \<Rightarrow> error + (number \<times> state)"
where
  "minimax depth isMax botP human alpha beta limit s =
     (case detectWinnerPlayer s of
        Inl e \<Rightarrow> Inl e
      | Inr winner \<Rightarrow>
          if winner = Some botP then Inr (Finite (100 - depth), s)
          else if winner = Some human then Inr (Finite (- 100 + depth), s)
          else if limit \<le> depth then Inr (Finite 0, s)
          else
            (case generateAllMoves (if isMax then botP else human) s of
               Inl e \<Rightarrow> Inl e
             | Inr moves \<Rightarrow>
                 if moves = [] then Inr (Finite 0, s)
                 else minimaxLoop moves (if isMax then botP else human)
                        (if isMax then NegInfinity else PosInfinity)
                        depth isMax botP human alpha beta limit s))"
| "minimaxLoop [] p bestScore depth isMax botP human alpha beta limit s = Inr (bestScore, s)"
| "minimaxLoop (m # ms) p bestScore depth isMax botP human alpha beta limit s =
     (case applyMove m p s of Inl e \<Rightarrow> Inl e | Inr s1 \<Rightarrow>
       (case minimax (depth + 1) (\<not> isMax) botP human alpha beta limit s1 of
          Inl e \<Rightarrow> Inl e
        | Inr (score, s2) \<Rightarrow>
           (case undoMoveGeneric m p s2 of Inl e \<Rightarrow> Inl e | Inr s3 \<Rightarrow>
              (let bestScore' = (if isMax then Math_max bestScore score
                                 else Math_min bestScore score);
                   alpha' = (if isMax then Math_max alpha score else alpha);
                   beta' = (if isMax then beta else Math_min beta score)
               in if number_le beta' alpha' then Inr (bestScore', s3)
                  else minimaxLoop ms p bestScore' depth isMax botP human alpha' beta' limit s3))))"
  by pat_completeness auto
termination
  by (relation "inv_image (less_than <*lex*> less_than)
        (\<lambda>x. case x of
           Inl (depth, isMax, botP, human, alpha, beta, limit, s) \<Rightarrow>
             (2 * nat (limit - depth), 0)
         | Inr (moves, p, bestScore, depth, isMax, botP, human, alpha, beta, limit, s) \<Rightarrow>
             (2 * nat (limit - depth - 1) + 1, length moves))")
     auto

definition depthLimit :: int where
  "depthLimit = 4"

fun bestMoveLoop :: "move list \<Rightarrow> player \<Rightarrow> player \<Rightarrow> number \<Rightarrow> move option \<Rightarrow> state
                       \<Rightarrow> error + (move option \<times> state)" where
  "bestMoveLoop [] botP opponent bestScore bestMove s = Inr (bestMove, s)"
| "bestMoveLoop (m # ms) botP opponent bestScore bestMove s =
     (case applyMove m botP s of Inl e \<Rightarrow> Inl e | Inr s1 \<Rightarrow>
       (case minimax 1 False botP opponent NegInfinity PosInfinity depthLimit s1 of
          Inl e \<Rightarrow> Inl e
        | Inr (score, s2) \<Rightarrow>
           (case undoMoveGeneric m botP s2 of Inl e \<Rightarrow> Inl e | Inr s3 \<Rightarrow>
              if number_gt score bestScore then bestMoveLoop ms botP opponent score (Some m) s3
              else bestMoveLoop ms botP opponent bestScore bestMove s3)))"

definition minimaxBestMove :: "player \<Rightarrow> state \<Rightarrow> error + (move option \<times> state)" where
  "minimaxBestMove botP s =
     (let opponent = (if botP = PlayerO then PlayerX else PlayerO) in
      case generateAllMoves botP s of
        Inl e \<Rightarrow> Inl e
      | Inr moves \<Rightarrow> bestMoveLoop moves botP opponent NegInfinity None s)"

section \<open>Turn control\<close>

text \<open>
  The rest of the script's state: the configuration strings \<^verbatim>\<open>mode\<close> and
  \<^verbatim>\<open>difficulty\<close>, the player to move, the current selection, the message passed to
  \<^verbatim>\<open>endGame\<close> if it has been called, and the number of
  \<^verbatim>\<open>setTimeout(botMove, 600)\<close> calls made. The page itself (status line, highlights,
  popup) is not modelled.
\<close>

datatype message = PlayerWins player | Draw | BotWins string

record game =
  gstate :: state
  mode :: string
  difficulty :: string
  currentPlayer :: player
  selectedSize :: "piece_size option"
  selectedFrom :: "nat option"
  ended :: "message option"
  botTimers :: nat

definition cancelSelectAll :: "game \<Rightarrow> game" where
  "cancelSelectAll g = g\<lparr>selectedSize := None, selectedFrom := None\<rparr>"

definition switchTurn :: "game \<Rightarrow> game" where
  "switchTurn g =
     cancelSelectAll (g\<lparr>currentPlayer := (if currentPlayer g = PlayerX then PlayerO else PlayerX)\<rparr>)"

definition endGame :: "message \<Rightarrow> game \<Rightarrow> game" where
  "endGame msg g = g\<lparr>ended := Some msg\<rparr>"

text \<open>
  The tail shared by both branches of \<^verbatim>\<open>handleCellClick\<close> that change the board:
  \<^verbatim>\<open>if (checkWinner()) return endGame(...); switchTurn();
  if (mode === "1p" && currentPlayer === "O") setTimeout(botMove, 600);\<close>
\<close>

definition afterHumanMove :: "game \<Rightarrow> error + game" where
  "afterHumanMove g =
     (case checkWinner (gstate g) of
        Inl e \<Rightarrow> Inl e
      | Inr win \<Rightarrow>
          if win then Inr (endGame (PlayerWins (currentPlayer g)) g)
          else (let g' = switchTurn g in
                if mode g' = ''1p'' \<and> currentPlayer g' = PlayerO
                then Inr (g'\<lparr>botTimers := botTimers g' + 1\<rparr>) else Inr g'))"

definition handleCellClick :: "nat \<Rightarrow> game \<Rightarrow> error + game" where
  "handleCellClick index g =
     (if selectedFrom g = Some index then Inr (cancelSelectAll g)
      else
        (case topAt (board (gstate g)) index of
           Inl e \<Rightarrow> Inl e
         | Inr topPiece \<Rightarrow>
             if (case topPiece of None \<Rightarrow> False | Some t \<Rightarrow> player t = currentPlayer g)
             then Inr (g\<lparr>selectedFrom := Some index, selectedSize := None\<rparr>)
             else
               (case selectedFrom g of
                  Some from \<Rightarrow>
                    (case topAt (board (gstate g)) from of
                       Inl e \<Rightarrow> Inl e
                     | Inr None \<Rightarrow> Inr g
                     | Inr (Some movingPiece) \<Rightarrow>
                         (case canPlace index (currentPlayer g) (psize movingPiece) True (gstate g) of
                            Inl e \<Rightarrow> Inl e
                          | Inr ok \<Rightarrow>
                              if \<not> ok then Inr g
                              else
                                (let b = board (gstate g);
                                     b1 = b[from := butlast (b ! from)];
                                     b2 = b1[index := (b1 ! index) @ [movingPiece]]
                                 in afterHumanMove
                                      (g\<lparr>gstate := (gstate g)\<lparr>board := b2\<rparr>,
                                         selectedFrom := None\<rparr>))))
                | None \<Rightarrow>
                    (case selectedSize g of
                       Some sz \<Rightarrow>
                         (case canPlace index (currentPlayer g) sz False (gstate g) of
                            Inl e \<Rightarrow> Inl e
                          | Inr ok \<Rightarrow>
                              if \<not> ok then Inr g
                              else
                                (let s = gstate g;
                                     b = board s;
                                     p = currentPlayer g
                                 in afterHumanMove
                                      (g\<lparr>gstate := s\<lparr>board := b[index := (b ! index) @ [\<lparr>player = p, psize = sz\<rparr>]],
                                                      piecesLeft := setRemaining (piecesLeft s) p sz
                                                                      (remaining (piecesLeft s) p sz - 1)\<rparr>\<rparr>)))
                     | None \<Rightarrow> Inr g))))"

text \<open>
  \<^verbatim>\<open>moves[Math.floor(Math.random()*moves.length)]\<close>: the argument \<open>r\<close> is the value of
  \<^verbatim>\<open>Math.floor(Math.random()*moves.length)\<close>; \<open>None\<close> is \<^verbatim>\<open>undefined\<close>.
\<close>

definition randomMove :: "move list \<Rightarrow> nat \<Rightarrow> move option" where
  "randomMove moves r = (if r < length moves then Some (moves ! r) else None)"

text \<open>
  \<^verbatim>\<open>findWinningMoveGeneric(bot) || findBlockingMoveGeneric(bot) || moves[...]\<close>
\<close>

definition winBlockRandom :: "player \<Rightarrow> move list \<Rightarrow> nat \<Rightarrow> state \<Rightarrow> error + (move option \<times> state)" where
  "winBlockRandom botP moves r s =
     (case findWinningMoveGeneric botP s of
        Inl e \<Rightarrow> Inl e
      | Inr (w, s1) \<Rightarrow>
          if w \<noteq> None then Inr (w, s1)
          else (case findBlockingMoveGeneric botP s1 of
                  Inl e \<Rightarrow> Inl e
                | Inr (b, s2) \<Rightarrow>
                    if b \<noteq> None then Inr (b, s2) else Inr (randomMove moves r, s2)))"

text \<open>The conditional expression that \<^verbatim>\<open>botMove\<close> binds to \<^verbatim>\<open>move\<close>.\<close>

definition chooseMove :: "string \<Rightarrow> player \<Rightarrow> move list \<Rightarrow> nat \<Rightarrow> state \<Rightarrow> error + (move option \<times> state)" where
  "chooseMove diff botP moves r s =
     (if diff = ''easy'' then Inr (randomMove moves r, s)
      else if diff = ''medium'' then winBlockRandom botP moves r s
      else if diff = ''hard'' then winBlockRandom botP moves r s
      else (case minimaxBestMove botP s of
              Inl e \<Rightarrow> Inl e
            | Inr (b, s1) \<Rightarrow> if b \<noteq> None then Inr (b, s1) else Inr (randomMove moves r, s1)))"

definition botMove :: "nat \<Rightarrow> game \<Rightarrow> error + game" where
  "botMove r g =
     (let botP = PlayerO in
      case generateAllMoves botP (gstate g) of
        Inl e \<Rightarrow> Inl e
      | Inr moves \<Rightarrow>
          if moves = [] then Inr (endGame Draw g)
          else
            (case chooseMove (difficulty g) botP moves r (gstate g) of
               Inl e \<Rightarrow> Inl e
             | Inr (None, s1) \<Rightarrow> Inl TypeError
             | Inr (Some m, s1) \<Rightarrow>
                 (case applyMove m botP s1 of
                    Inl e \<Rightarrow> Inl e
                  | Inr s2 \<Rightarrow>
                      (case checkWinner s2 of
                         Inl e \<Rightarrow> Inl e
                       | Inr win \<Rightarrow>
                           if win then Inr (endGame (BotWins (difficulty g)) (g\<lparr>gstate := s2\<rparr>))
                           else Inr (switchTurn (g\<lparr>gstate := s2\<rparr>))))))"

text \<open>The state of a new game.\<close>

definition initialState :: state where
  "initialState =
     \<lparr>board = replicate 9 [],
      piecesLeft = \<lparr>leftX = \<lparr>small = 2, medium = 2, large = 2\<rparr>,
                    leftO = \<lparr>small = 2, medium = 2, large = 2\<rparr>\<rparr>\<rparr>"

section \<open>Notions used to state the properties\<close>

text \<open>The rank of a size as the specification numbers it: small 0, medium 1, large 2.\<close>

fun rank :: "piece_size \<Rightarrow> int" where
  "rank Small = 0"
| "rank Medium = 1"
| "rank Large = 2"

text \<open>The rank of a cell's top piece, \<open>-1\<close> for an empty cell.\<close>

definition topRank :: "piece list \<Rightarrow> int" where
  "topRank stack = (case topOf stack of None \<Rightarrow> - 1 | Some t \<Rightarrow> rank (psize t))"

text \<open>\<^verbatim>\<open>canPlace\<close> returns normally and accepts.\<close>

definition canPlaceOk :: "nat \<Rightarrow> player \<Rightarrow> piece_size \<Rightarrow> bool \<Rightarrow> state \<Rightarrow> bool" where
  "canPlaceOk i p sz isMove s = (canPlace i p sz isMove s = Inr True)"

text \<open>
  The enumeration order as the specification words it: placements by size small, medium,
  large (for a size the player still has), each over cells 0 to 8; then relocations by
  source cell 0 to 8 whose top piece is the player's and, within each source, destination
  cells 0 to 8 skipping the source.
\<close>

definition generateMoves_spec :: "player \<Rightarrow> state \<Rightarrow> move list" where
  "generateMoves_spec p s =
     [Place i sz. sz \<leftarrow> [Small, Medium, Large], 0 < remaining (piecesLeft s) p sz,
                  i \<leftarrow> [0..<9], canPlaceOk i p sz False s]
     @ [Move from to (psize t). from \<leftarrow> [0..<9],
                  t \<leftarrow> (case topOf (board s ! from) of None \<Rightarrow> [] | Some t \<Rightarrow> [t]),
                  player t = p, to \<leftarrow> [0..<9], to \<noteq> from, canPlaceOk to p (psize t) True s]"

text \<open>The rows and columns of the 3 by 3 grid, cells numbered row by row.\<close>

definition rowLine :: "nat \<Rightarrow> nat \<times> nat \<times> nat" where
  "rowLine r = (3 * r, 3 * r + 1, 3 * r + 2)"

definition colLine :: "nat \<Rightarrow> nat \<times> nat \<times> nat" where
  "colLine c = (c, c + 3, c + 6)"

text \<open>
  A line is won as the specification words it: all three cells are non-empty and the
  owners of their top pieces are pairwise equal.
\<close>

definition lineWon :: "state \<Rightarrow> nat \<times> nat \<times> nat \<Rightarrow> bool" where
  "lineWon s l =
     (case l of (a, b, c) \<Rightarrow>
        board s ! a \<noteq> [] \<and> board s ! b \<noteq> [] \<and> board s ! c \<noteq> [] \<and>
        player (last (board s ! a)) = player (last (board s ! b)) \<and>
        player (last (board s ! b)) = player (last (board s ! c)) \<and>
        player (last (board s ! a)) = player (last (board s ! c)))"

definition inBoard :: "state \<Rightarrow> nat \<times> nat \<times> nat \<Rightarrow> bool" where
  "inBoard s l =
     (case l of (a, b, c) \<Rightarrow>
        a < length (board s) \<and> b < length (board s) \<and> c < length (board s))"

text \<open>The sizes of a stack strictly increase from bottom to top.\<close>

definition increasing :: "piece list \<Rightarrow> bool" where
  "increasing stack = sorted_wrt (\<lambda>a b. rank (psize a) < rank (psize b)) stack"

text \<open>
  The states reachable from a new game by legal moves only. A legal step is a placement
  that \<^verbatim>\<open>canPlace\<close> accepts, or the relocation of the top piece of a cell to a cell
  where \<^verbatim>\<open>canPlace\<close> accepts its size, made by \<^verbatim>\<open>applyMove\<close>.
\<close>

inductive reachable :: "state \<Rightarrow> bool" where
  init: "reachable initialState"
| place: "reachable s \<Longrightarrow> canPlace index p sz False s = Inr True \<Longrightarrow>
          applyMove (Place index sz) p s = Inr s' \<Longrightarrow> reachable s'"
| relocate: "reachable s \<Longrightarrow> topAt (board s) from = Inr (Some t) \<Longrightarrow>
          canPlace to p (psize t) True s = Inr True \<Longrightarrow>
          applyMove (Move from to sz) p s = Inr s' \<Longrightarrow> reachable s'"

code_pred reachable .

text \<open>
  The one-ply-ahead evaluation of a candidate of the top-level driver: apply the move for
  the machine player, then \<^verbatim>\<open>minimax(1, false, bot, opponent, -Infinity, Infinity, 4)\<close>.
\<close>

definition candidateScore :: "player \<Rightarrow> state \<Rightarrow> move \<Rightarrow> error + number" where
  "candidateScore botP s m =
     (case applyMove m botP s of
        Inl e \<Rightarrow> Inl e
      | Inr s1 \<Rightarrow>
          (case minimax 1 False botP (if botP = PlayerO then PlayerX else PlayerO)
                  NegInfinity PosInfinity depthLimit s1 of
             Inl e \<Rightarrow> Inl e
           | Inr (score, s2) \<Rightarrow> Inr score))"

text \<open>The integer of a finite evaluation.\<close>

definition finiteScore :: "error + number \<Rightarrow> int" where
  "finiteScore r = (case r of Inr (Finite v) \<Rightarrow> v | _ \<Rightarrow> 0)"

text \<open>
  Keeping the strictly greatest score seen so far over a list of candidates with integer
  scores \<open>sc\<close>, from a running best score and best move.
\<close>

fun firstBest :: "(move \<Rightarrow> int) \<Rightarrow> move list \<Rightarrow> number \<Rightarrow> move option \<Rightarrow> move option" where
  "firstBest sc [] best bm = bm"
| "firstBest sc (m # ms) best bm =
     (if number_gt (Finite (sc m)) best then firstBest sc ms (Finite (sc m)) (Some m)
      else firstBest sc ms best bm)"

text \<open>
  A move wins for a player when the win check holds on the board after it, as
  \<^verbatim>\<open>findWinningMoveGeneric\<close> tests it; the player's winning move is the first such move in
  generation order.
\<close>

definition winsAfter :: "player \<Rightarrow> state \<Rightarrow> move \<Rightarrow> bool" where
  "winsAfter p s m = (case applyMove m p s of Inl e \<Rightarrow> False | Inr s1 \<Rightarrow> checkWinner s1 = Inr True)"

definition firstWinningMove :: "player \<Rightarrow> state \<Rightarrow> move option" where
  "firstWinningMove p s = find (winsAfter p s) (generateMoves_spec p s)"

text \<open>
  A move of the machine player blocks when the opponent has no winning move on the board
  after it; the blocking move is the first such move in generation order, looked for only
  when the opponent has a winning move now.
\<close>

definition stopsWin :: "player \<Rightarrow> state \<Rightarrow> move \<Rightarrow> bool" where
  "stopsWin botP s m =
     (case applyMove m botP s of
        Inl e \<Rightarrow> False
      | Inr s1 \<Rightarrow> firstWinningMove (if botP = PlayerO then PlayerX else PlayerO) s1 = None)"

definition firstBlockingMove :: "player \<Rightarrow> state \<Rightarrow> move option" where
  "firstBlockingMove botP s =
     (if firstWinningMove (if botP = PlayerO then PlayerX else PlayerO) s = None then None
      else find (stopsWin botP s) (generateMoves_spec botP s))"


text \<open>
  Counting the large pieces: those of a player on the board, the cells whose top piece
  is large, and the account that a player's large pieces are the two of a new game, on
  the board or still to place.
\<close>

definition largeOf :: "player \<Rightarrow> piece" where
  "largeOf p = \<lparr>player = p, psize = Large\<rparr>"

definition largeOnBoard :: "state \<Rightarrow> player \<Rightarrow> nat" where
  "largeOnBoard s p = sum_list (map (\<lambda>stack. count_list stack (largeOf p)) (board s))"

definition largeTop :: "piece list \<Rightarrow> bool" where
  "largeTop stack = (stack \<noteq> [] \<and> psize (last stack) = Large)"

definition largeAccount :: "state \<Rightarrow> bool" where
  "largeAccount s =
     (\<forall>p. 0 \<le> remaining (piecesLeft s) p Large \<and>
          remaining (piecesLeft s) p Large + int (largeOnBoard s p) = 2)"

section \<open>Example states\<close>

definition pieceOf :: "player \<Rightarrow> piece_size \<Rightarrow> piece" where
  "pieceOf p sz = \<lparr>player = p, psize = sz\<rparr>"

definition fullInventory :: inventory where
  "fullInventory = \<lparr>leftX = \<lparr>small = 2, medium = 2, large = 2\<rparr>,
                     leftO = \<lparr>small = 2, medium = 2, large = 2\<rparr>\<rparr>"

text \<open>Three top pieces of one player in the first row.\<close>

definition topRowOf :: "player \<Rightarrow> state" where
  "topRowOf p =
     \<lparr>board = [[pieceOf p Small], [pieceOf p Small], [pieceOf p Medium], [], [], [], [], [], []],
      piecesLeft = fullInventory\<rparr>"

text \<open>The new game after the first player has placed a small piece in the centre.\<close>

definition centreTaken :: state where
  "centreTaken =
     \<lparr>board = [[], [], [], [], [pieceOf PlayerX Small], [], [], [], []],
      piecesLeft = \<lparr>leftX = \<lparr>small = 1, medium = 2, large = 2\<rparr>,
                    leftO = \<lparr>small = 2, medium = 2, large = 2\<rparr>\<rparr>\<rparr>"

text \<open>
  A full board of small pieces without a won line and nothing left to place: no piece can
  go anywhere, so neither player has a legal move. In the game on it the first player is
  to move and has selected cell 0.
\<close>

definition hemmedIn :: state where
  "hemmedIn =
     \<lparr>board = [[pieceOf PlayerX Small], [pieceOf PlayerO Small], [pieceOf PlayerX Small],
               [pieceOf PlayerX Small], [pieceOf PlayerO Small], [pieceOf PlayerO Small],
               [pieceOf PlayerO Small], [pieceOf PlayerX Small], [pieceOf PlayerX Small]],
      piecesLeft = \<lparr>leftX = \<lparr>small = 0, medium = 0, large = 0\<rparr>,
                    leftO = \<lparr>small = 0, medium = 0, large = 0\<rparr>\<rparr>\<rparr>"


section \<open>The example states, evaluated\<close>

lemma topRowOf_winner_O: "detectWinnerPlayer (topRowOf PlayerO) = Inr (Some PlayerO)"
  by code_simp

lemma topRowOf_winner_X: "detectWinnerPlayer (topRowOf PlayerX) = Inr (Some PlayerX)"
  by code_simp

lemma initialState_no_winner: "detectWinnerPlayer initialState = Inr None"
  by code_simp

lemma hemmedIn_no_moves_X: "generateAllMoves PlayerX hemmedIn = Inr []"
  by code_simp


lemma hemmedIn_no_winner: "detectWinnerPlayer hemmedIn = Inr None"
  by code_simp

lemma place_centre: "applyMove (Place 4 Small) PlayerX initialState = Inr centreTaken"
  by code_simp

lemma length_board_examples:
  "length (board initialState) = 9" "length (board centreTaken) = 9"
  "length (board hemmedIn) = 9"
  "length (board (topRowOf p)) = 9"
  by (simp_all add: initialState_def centreTaken_def hemmedIn_def topRowOf_def)

section \<open>The legality check\<close>

lemma indexOf_sizeOrder: "indexOf sizeOrder sz = rank sz"
  by (cases sz) (simp_all add: sizeOrder_def)

lemma canPlace_rank:
  "index < length (board s) \<Longrightarrow>
   canPlace index p sz isMove s =
     Inr (topRank (board s ! index) < rank sz \<and> (isMove \<or> 0 < remaining (piecesLeft s) p sz))"
  by (auto simp: canPlace_def stackAt_def indexOf_sizeOrder Let_def topRank_def
      split: option.splits)

lemma canPlace_Inr:
  "i < length (board s) \<Longrightarrow> canPlace i p sz isMove s = Inr (canPlaceOk i p sz isMove s)"
  by (simp add: canPlaceOk_def canPlace_def stackAt_def Let_def)

lemma canPlaceOk_iff:
  "index < length (board s) \<Longrightarrow>
   canPlaceOk index p sz isMove s \<longleftrightarrow>
     (topRank (board s ! index) < rank sz \<and> (isMove \<or> 0 < remaining (piecesLeft s) p sz))"
  by (simp add: canPlaceOk_def canPlace_rank)

text \<open>
  Claim C2. On a cell of the board, \<^verbatim>\<open>canPlace\<close> accepts exactly when the rank of the new
  size is strictly greater than the rank of the cell's top piece (\<open>-1\<close> for an empty cell)
  and, for a placement from the inventory, the player's remaining count of that size is
  positive. For a relocation the answer does not depend on the inventory at all.
\<close>

theorem canPlace_rank_rule:
  "index < length (board s) \<Longrightarrow>
   canPlace index p sz isMove s =
     Inr (topRank (board s ! index) < rank sz \<and>
          (\<not> isMove \<longrightarrow> 0 < remaining (piecesLeft s) p sz)) \<and>
   canPlace index p sz True (s\<lparr>piecesLeft := pl\<rparr>) = canPlace index p sz True s"
  by (auto simp: canPlace_rank)

theorem canPlace_rank_rule_witness:
  "4 < length (board initialState) \<and>
   canPlace 4 PlayerX Small False initialState = Inr True \<and>
   canPlace 4 PlayerX Small True
     (initialState\<lparr>piecesLeft := \<lparr>leftX = \<lparr>small = 0, medium = 0, large = 0\<rparr>,
                                  leftO = \<lparr>small = 0, medium = 0, large = 0\<rparr>\<rparr>\<rparr>)
     = canPlace 4 PlayerX Small True initialState"
  using canPlace_rank_rule [of 4 initialState PlayerX Small False
      "\<lparr>leftX = \<lparr>small = 0, medium = 0, large = 0\<rparr>, leftO = \<lparr>small = 0, medium = 0, large = 0\<rparr>\<rparr>"]
  by (simp add: initialState_def topRank_def topOf_def remaining_def countOf_def)

section \<open>The win oracle\<close>

lemma sameOwner_iff:
  "sameOwner A B C \<longleftrightarrow>
   (\<exists>a b c. A = Some a \<and> B = Some b \<and> C = Some c \<and> player a = player b \<and> player b = player c)"
  by (cases A; cases B; cases C) auto

lemma sameOwner_topOf:
  "sameOwner (topOf (board s ! a)) (topOf (board s ! b)) (topOf (board s ! c)) = lineWon s (a, b, c)"
  by (auto simp: topOf_def lineWon_def)

lemma topAt_Inr: "i < length b \<Longrightarrow> topAt b i = Inr (topOf (b ! i))"
  by (simp add: topAt_def stackAt_def)

lemma checkWinnerLoop_detect:
  "checkWinnerLoop ls s =
     (case detectWinnerLoop ls s of Inl e \<Rightarrow> Inl e | Inr w \<Rightarrow> Inr (w \<noteq> None))"
proof (induction ls s rule: checkWinnerLoop.induct)
  case (1 s)
  show ?case by simp
next
  case (2 a b c rest s)
  show ?case
  proof (cases "topAt (board s) a")
    case Inl
    then show ?thesis by simp
  next
    case A: (Inr A)
    show ?thesis
    proof (cases "topAt (board s) b")
      case Inl
      then show ?thesis using A by simp
    next
      case B: (Inr B)
      show ?thesis
      proof (cases "topAt (board s) c")
        case Inl
        then show ?thesis using A B by simp
      next
        case C: (Inr C)
        show ?thesis
        proof (cases "sameOwner A B C")
          case True
          then have "A \<noteq> None" by (auto simp: sameOwner_iff)
          then show ?thesis using A B C True by simp
        next
          case False
          then show ?thesis using A B C "2.IH"[OF A B C False] by simp
        qed
      qed
    qed
  qed
qed

lemma checkWinnerLoop_find:
  "list_all (inBoard s) ls \<Longrightarrow> checkWinnerLoop ls s = Inr (find (lineWon s) ls \<noteq> None)"
  by (induction ls s rule: checkWinnerLoop.induct)
     (simp_all add: topAt_Inr inBoard_def sameOwner_topOf)

lemma detectWinnerLoop_find:
  "list_all (inBoard s) ls \<Longrightarrow>
   detectWinnerLoop ls s =
     Inr (case find (lineWon s) ls of
            None \<Rightarrow> None
          | Some (a, b, c) \<Rightarrow> Some (player (last (board s ! a))))"
proof (induction ls s rule: detectWinnerLoop.induct)
  case (1 s)
  show ?case by simp
next
  case (2 a b c rest s)
  from "2.prems" have i: "a < length (board s)" "b < length (board s)" "c < length (board s)"
    by (simp_all add: inBoard_def)
  from "2.prems" have r: "list_all (inBoard s) rest"
    by simp
  show ?case
  proof (cases "lineWon s (a, b, c)")
    case True
    then have t: "topOf (board s ! a) = Some (last (board s ! a))"
      by (simp add: lineWon_def topOf_def)
    from True have "sameOwner (topOf (board s ! a)) (topOf (board s ! b)) (topOf (board s ! c))"
      by (simp add: sameOwner_topOf)
    then show ?thesis using True i by (simp add: topAt_Inr t)
  next
    case False
    then show ?thesis using i r "2.IH" by (simp add: topAt_Inr sameOwner_topOf)
  qed
qed

lemma wins_inBoard: "length (board s) = 9 \<Longrightarrow> list_all (inBoard s) wins"
  by (simp add: wins_def inBoard_def)

lemma find_SomeD: "find P xs = Some x \<Longrightarrow> x \<in> set xs \<and> P x"
  by (induction xs) (auto split: if_splits)

lemma find_None_iff_set: "find P xs \<noteq> None \<longleftrightarrow> (\<exists>x \<in> set xs. P x)"
  by (auto simp: find_None_iff)

text \<open>
  Claim C5. The lines scanned are the 3 rows, the 3 columns and the 2 diagonals. On a
  board of 9 cells the win check is true exactly when one of them has three non-empty
  cells whose top pieces have pairwise equal owners, and the winner-returning check
  returns a player exactly then, namely the owner of such a line.
\<close>

theorem win_oracle_lines:
  assumes "length (board s) = 9"
  shows "wins = map rowLine [0, 1, 2] @ map colLine [0, 1, 2] @ [(0, 4, 8), (2, 4, 6)] \<and>
         checkWinner s = Inr (\<exists>l \<in> set wins. lineWon s l) \<and>
         (\<exists>w. detectWinnerPlayer s = Inr w \<and>
              (w \<noteq> None \<longleftrightarrow> (\<exists>l \<in> set wins. lineWon s l)) \<and>
              (\<forall>p. w = Some p \<longrightarrow>
                 (\<exists>(a, b, c) \<in> set wins. lineWon s (a, b, c) \<and> player (last (board s ! a)) = p)))"
proof -
  have 1: "wins = map rowLine [0, 1, 2] @ map colLine [0, 1, 2] @ [(0, 4, 8), (2, 4, 6)]"
    by (simp add: wins_def rowLine_def colLine_def)
  have "checkWinner s = Inr (find (lineWon s) wins \<noteq> None)"
    using assms by (simp only: checkWinner_def checkWinnerLoop_find wins_inBoard)
  then have 2: "checkWinner s = Inr (\<exists>l \<in> set wins. lineWon s l)"
    by (simp only: find_None_iff_set)
  let ?w = "case find (lineWon s) wins of
              None \<Rightarrow> None | Some (a, b, c) \<Rightarrow> Some (player (last (board s ! a)))"
  have 3: "detectWinnerPlayer s = Inr ?w"
    using assms by (simp add: detectWinnerPlayer_def detectWinnerLoop_find wins_inBoard)
  have "?w \<noteq> None \<longleftrightarrow> find (lineWon s) wins \<noteq> None"
    by (cases "find (lineWon s) wins") auto
  then have 4: "?w \<noteq> None \<longleftrightarrow> (\<exists>l \<in> set wins. lineWon s l)"
    by (simp only: find_None_iff_set)
  have 5: "\<exists>(a, b, c) \<in> set wins. lineWon s (a, b, c) \<and> player (last (board s ! a)) = p"
    if "?w = Some p" for p
  proof (cases "find (lineWon s) wins")
    case None
    with that show ?thesis by simp
  next
    case (Some l)
    obtain a b c where l: "l = (a, b, c)" by (cases l)
    from Some l have "(a, b, c) \<in> set wins" "lineWon s (a, b, c)"
      by (simp_all add: find_SomeD)
    moreover from that Some l have "player (last (board s ! a)) = p" by simp
    ultimately show ?thesis by (intro bexI[of _ "(a, b, c)"]) simp_all
  qed
  have "\<exists>w. detectWinnerPlayer s = Inr w \<and>
              (w \<noteq> None \<longleftrightarrow> (\<exists>l \<in> set wins. lineWon s l)) \<and>
              (\<forall>p. w = Some p \<longrightarrow>
                 (\<exists>(a, b, c) \<in> set wins. lineWon s (a, b, c) \<and> player (last (board s ! a)) = p))"
    using 3 4 5 by (intro exI[of _ ?w] conjI allI impI)
  with 1 2 show ?thesis by (intro conjI)
qed

theorem win_oracle_lines_witness:
  "length (board initialState) = 9 \<and> checkWinner initialState = Inr False \<and>
   length (board (topRowOf PlayerO)) = 9 \<and> checkWinner (topRowOf PlayerO) = Inr True \<and>
   detectWinnerPlayer (topRowOf PlayerO) = Inr (Some PlayerO)"
proof -
  have "checkWinner initialState = Inr False"
    using win_oracle_lines [of initialState]
    by (simp add: initialState_def lineWon_def wins_def)
  moreover have "checkWinner (topRowOf PlayerO) = Inr True"
    using win_oracle_lines [of "topRowOf PlayerO"]
    by (simp add: topRowOf_def lineWon_def wins_def pieceOf_def)
  ultimately show ?thesis
    by (simp add: length_board_examples topRowOf_winner_O)
qed

text \<open>
  Claim C10. The boolean win check and the winner-returning win check agree in every
  state: the first is true exactly when the second returns a player (and they fail
  together). On a board of 9 cells both are decided by the first won line of the same
  list of 8 lines.
\<close>

theorem checkWinner_agrees_detectWinnerPlayer:
  "checkWinner s =
     (case detectWinnerPlayer s of Inl e \<Rightarrow> Inl e | Inr w \<Rightarrow> Inr (w \<noteq> None)) \<and>
   (length (board s) = 9 \<longrightarrow>
      checkWinner s = Inr (find (lineWon s) wins \<noteq> None) \<and>
      detectWinnerPlayer s =
        Inr (case find (lineWon s) wins of
               None \<Rightarrow> None
             | Some (a, b, c) \<Rightarrow> Some (player (last (board s ! a)))))"
proof -
  have a: "checkWinner s =
     (case detectWinnerPlayer s of Inl e \<Rightarrow> Inl e | Inr w \<Rightarrow> Inr (w \<noteq> None))"
    unfolding checkWinner_def detectWinnerPlayer_def by (rule checkWinnerLoop_detect)
  have b: "checkWinner s = Inr (find (lineWon s) wins \<noteq> None)"
    if "length (board s) = 9"
    using that by (simp only: checkWinner_def checkWinnerLoop_find wins_inBoard)
  have c: "detectWinnerPlayer s =
        Inr (case find (lineWon s) wins of
               None \<Rightarrow> None
             | Some (a, b, c) \<Rightarrow> Some (player (last (board s ! a))))"
    if "length (board s) = 9"
    using that by (simp only: detectWinnerPlayer_def detectWinnerLoop_find wins_inBoard)
  show ?thesis
  proof (intro conjI impI)
    show "checkWinner s =
      (case detectWinnerPlayer s of Inl e \<Rightarrow> Inl e | Inr w \<Rightarrow> Inr (w \<noteq> None))"
      by (rule a)
  next
    assume "length (board s) = 9"
    then show "checkWinner s = Inr (find (lineWon s) wins \<noteq> None)" by (rule b)
  next
    assume "length (board s) = 9"
    then show "detectWinnerPlayer s =
        Inr (case find (lineWon s) wins of
               None \<Rightarrow> None
             | Some (a, b, c) \<Rightarrow> Some (player (last (board s ! a))))" by (rule c)
  qed
qed

theorem checkWinner_agrees_detectWinnerPlayer_witness:
  "length (board initialState) = 9 \<and>
   checkWinner initialState = Inr False \<and> detectWinnerPlayer initialState = Inr None \<and>
   length (board (topRowOf PlayerX)) = 9 \<and>
   checkWinner (topRowOf PlayerX) = Inr True \<and>
   detectWinnerPlayer (topRowOf PlayerX) = Inr (Some PlayerX)"
  using checkWinner_agrees_detectWinnerPlayer [of initialState]
    checkWinner_agrees_detectWinnerPlayer [of "topRowOf PlayerX"]
  by (simp add: length_board_examples topRowOf_winner_X initialState_no_winner)
section \<open>The move generator\<close>

lemma placeCells_eq:
  "length (board s) = 9 \<Longrightarrow>
   placeCells p sz s i moves = Inr (moves @ [Place j sz. j \<leftarrow> [i..<9], canPlaceOk j p sz False s])"
proof (induction p sz s i moves rule: placeCells.induct)
  case (1 p sz s i moves)
  show ?case
  proof (cases "i < 9")
    case True
    then have c: "canPlace i p sz False s = Inr (canPlaceOk i p sz False s)"
      using "1.prems" by (simp add: canPlace_Inr)
    have u: "[i..<9] = i # [i + 1..<9]" using True by (simp add: upt_conv_Cons)
    show ?thesis
      using "1.IH"[OF True c "1.prems"] True
      by (subst placeCells.simps) (simp add: c u del: placeCells.simps)
  next
    case False
    then show ?thesis by (subst placeCells.simps) simp
  qed
qed

lemma placeSizes_eq:
  "length (board s) = 9 \<Longrightarrow>
   placeSizes szs p s moves =
     Inr (moves @ [Place i sz. sz \<leftarrow> szs, 0 < remaining (piecesLeft s) p sz,
                   i \<leftarrow> [0..<9], canPlaceOk i p sz False s])"
  by (induction szs p s moves rule: placeSizes.induct)
     (simp_all add: placeCells_eq del: placeCells.simps)

lemma moveTargets_eq:
  "length (board s) = 9 \<Longrightarrow>
   moveTargets p from t s to moves =
     Inr (moves @ [Move from j (psize t). j \<leftarrow> [to..<9], j \<noteq> from, canPlaceOk j p (psize t) True s])"
proof (induction p "from" t s to moves rule: moveTargets.induct)
  case (1 p "from" t s to moves)
  show ?case
  proof (cases "to < 9")
    case True
    then have c: "canPlace to p (psize t) True s = Inr (canPlaceOk to p (psize t) True s)"
      using "1.prems" by (simp add: canPlace_Inr)
    have u: "[to..<9] = to # [to + 1..<9]" using True by (simp add: upt_conv_Cons)
    show ?thesis
    proof (cases "to = from")
      case True
      have u': "[from..<9] = from # [from + 1..<9]" using u True by simp
      show ?thesis
        using "1.IH"(2)[OF \<open>to < 9\<close> _ "1.prems"] True \<open>to < 9\<close>
        by (subst moveTargets.simps) (simp add: u' del: moveTargets.simps)
    next
      case False
      show ?thesis
        using "1.IH"(1)[OF \<open>to < 9\<close> False c "1.prems"] False \<open>to < 9\<close>
        by (subst moveTargets.simps) (simp add: c u del: moveTargets.simps)
    qed
  next
    case False
    then show ?thesis by (subst moveTargets.simps) simp
  qed
qed

lemma moveSources_eq:
  "length (board s) = 9 \<Longrightarrow>
   moveSources p s from moves =
     Inr (moves @ [Move f to (psize t). f \<leftarrow> [from..<9],
                   t \<leftarrow> (case topOf (board s ! f) of None \<Rightarrow> [] | Some t \<Rightarrow> [t]),
                   player t = p, to \<leftarrow> [0..<9], to \<noteq> f, canPlaceOk to p (psize t) True s])"
proof (induction p s "from" moves rule: moveSources.induct)
  case (1 p s "from" moves)
  show ?case
  proof (cases "from < 9")
    case True
    have st: "stackAt (board s) from = Some (board s ! from)"
      using True "1.prems" by (simp add: stackAt_def)
    have u: "[from..<9] = from # [from + 1..<9]" using True by (simp add: upt_conv_Cons)
    show ?thesis
    proof (cases "board s ! from = []")
      case e: True
      show ?thesis
        using "1.IH"(1)[OF True st e "1.prems"] True e
        by (subst moveSources.simps) (simp add: st u topOf_def del: moveSources.simps)
    next
      case ne: False
      show ?thesis
      proof (cases "player (last (board s ! from)) = p")
        case other: False
        show ?thesis
          using "1.IH"(2)[OF True st ne refl other "1.prems"] True ne other
          by (subst moveSources.simps) (simp add: st u topOf_def del: moveSources.simps)
      next
        case own: True
        have mt: "moveTargets p from (last (board s ! from)) s 0 moves =
           Inr (moves @ [Move from j (psize (last (board s ! from))). j \<leftarrow> [0..<9], j \<noteq> from,
                  canPlaceOk j p (psize (last (board s ! from))) True s])"
          using "1.prems" by (rule moveTargets_eq)
        show ?thesis
          using "1.IH"(3)[OF True st ne refl _ mt "1.prems"] True ne own
          by (subst moveSources.simps) (simp add: st u mt topOf_def Let_def del: moveSources.simps moveTargets.simps)
      qed
    qed
  next
    case False
    then show ?thesis by (subst moveSources.simps) simp
  qed
qed

lemma generateAllMoves_eq:
  "length (board s) = 9 \<Longrightarrow> generateAllMoves p s = Inr (generateMoves_spec p s)"
  by (simp add: generateAllMoves_def generateMoves_spec_def placeSizes_eq moveSources_eq sizeOrder_def
      del: placeSizes.simps moveSources.simps)

lemma spec_Place_iff:
  "Place i sz \<in> set (generateMoves_spec p s) \<longleftrightarrow>
     (i < 9 \<and> 0 < remaining (piecesLeft s) p sz \<and> canPlaceOk i p sz False s)"
proof -
  have "sz = Small \<or> sz = Medium \<or> sz = Large" by (cases sz) auto
  then show ?thesis by (auto simp: generateMoves_spec_def split: option.splits)
qed

lemma spec_Move_iff:
  "Move f t sz \<in> set (generateMoves_spec p s) \<longleftrightarrow>
     (f < 9 \<and> t < 9 \<and> t \<noteq> f \<and> (\<exists>tp. topOf (board s ! f) = Some tp \<and> player tp = p \<and> psize tp = sz)
      \<and> canPlaceOk t p sz True s)"
  by (auto simp: generateMoves_spec_def split: option.splits) metis

lemma legal_roundtrip:
  assumes wf: "length (board s) = 9" and m: "m \<in> set (generateMoves_spec p s)"
  shows "\<exists>s1. applyMove m p s = Inr s1 \<and> length (board s1) = 9 \<and> undoMoveGeneric m p s1 = Inr s"
proof (cases m)
  case (Place i sz)
  with m have "i < 9" by (simp add: spec_Place_iff)
  with wf Place show ?thesis
    by (cases p; cases sz)
       (auto simp: applyMove_def undoMoveGeneric_def stackAt_def remaining_def setRemaining_def
          countOf_def setCount_def)
next
  case (Move f t sz)
  with m have b: "f < 9" "t < 9" "t \<noteq> f" and "\<exists>tp. topOf (board s ! f) = Some tp"
    by (auto simp: spec_Move_iff)
  then have ne: "board s ! f \<noteq> []" by (auto simp: topOf_def split: if_splits)
  with wf b Move show ?thesis
    by (auto simp: applyMove_def undoMoveGeneric_def stackAt_def topOf_def Let_def list_update_swap)
qed


text \<open>
  Claim C6. On a board of 9 cells the generator returns the moves in the fixed order:
  placements by size small, medium, large, each over cells 0 to 8, then relocations by
  source cell 0 to 8 and, within each source, destination cells 0 to 8 skipping the
  source. The list holds no relocation whose source is its destination and no placement
  of a size the player has none left of.
\<close>

theorem generateAllMoves_order_and_exclusions:
  assumes "length (board s) = 9"
  shows "\<exists>moves. generateAllMoves p s = Inr moves \<and> moves = generateMoves_spec p s \<and>
           (\<forall>from to sz. Move from to sz \<in> set moves \<longrightarrow> from \<noteq> to) \<and>
           (\<forall>i sz. Place i sz \<in> set moves \<longrightarrow> remaining (piecesLeft s) p sz \<noteq> 0)"
  using assms by (auto simp: generateAllMoves_eq spec_Move_iff spec_Place_iff)

lemma centre_moves:
  "Move 4 0 Small \<in> set (generateMoves_spec PlayerX centreTaken)"
  "Place 0 Small \<in> set (generateMoves_spec PlayerX centreTaken)"
  by (simp_all add: spec_Move_iff spec_Place_iff canPlaceOk_iff centreTaken_def topOf_def
        topRank_def pieceOf_def remaining_def countOf_def)

theorem generateAllMoves_order_and_exclusions_witness:
  "length (board initialState) = 9 \<and>
   generateAllMoves PlayerX initialState =
     Inr (map (\<lambda>i. Place i Small) [0, 1, 2, 3, 4, 5, 6, 7, 8] @
          map (\<lambda>i. Place i Medium) [0, 1, 2, 3, 4, 5, 6, 7, 8] @
          map (\<lambda>i. Place i Large) [0, 1, 2, 3, 4, 5, 6, 7, 8]) \<and>
   length (board centreTaken) = 9 \<and>
   (\<exists>moves. generateAllMoves PlayerX centreTaken = Inr moves \<and>
      Move 4 0 Small \<in> set moves \<and> Move 4 4 Small \<notin> set moves \<and>
      Place 0 Small \<in> set moves \<and> remaining (piecesLeft centreTaken) PlayerX Small = 1)"
proof -
  have b: "board initialState = replicate 9 []"
    and r: "remaining (piecesLeft initialState) PlayerX sz = 2" for sz
    by (cases sz; simp add: initialState_def remaining_def countOf_def)+
  have ok: "canPlaceOk i PlayerX sz False initialState" if "i < 9" for i sz
    using that by (cases sz) (simp_all add: canPlaceOk_iff b r topRank_def topOf_def)
  have u: "[0..<9] = [0, 1, 2, 3, 4, 5, 6, 7, 8]"
    by (simp add: upt_rec)
  have "generateMoves_spec PlayerX initialState =
          map (\<lambda>i. Place i Small) [0, 1, 2, 3, 4, 5, 6, 7, 8] @
          map (\<lambda>i. Place i Medium) [0, 1, 2, 3, 4, 5, 6, 7, 8] @
          map (\<lambda>i. Place i Large) [0, 1, 2, 3, 4, 5, 6, 7, 8]"
    unfolding generateMoves_spec_def u by (simp add: r ok b topOf_def)
  with generateAllMoves_order_and_exclusions [of initialState PlayerX] b
  have 1: "generateAllMoves PlayerX initialState =
     Inr (map (\<lambda>i. Place i Small) [0, 1, 2, 3, 4, 5, 6, 7, 8] @
          map (\<lambda>i. Place i Medium) [0, 1, 2, 3, 4, 5, 6, 7, 8] @
          map (\<lambda>i. Place i Large) [0, 1, 2, 3, 4, 5, 6, 7, 8])"
    by simp
  have c: "remaining (piecesLeft centreTaken) PlayerX Small = 1"
    by (simp add: centreTaken_def remaining_def countOf_def)
  from generateAllMoves_order_and_exclusions [of centreTaken PlayerX] centre_moves c
  have 2: "\<exists>moves. generateAllMoves PlayerX centreTaken = Inr moves \<and>
      Move 4 0 Small \<in> set moves \<and> Move 4 4 Small \<notin> set moves \<and>
      Place 0 Small \<in> set moves \<and> remaining (piecesLeft centreTaken) PlayerX Small = 1"
    by (auto simp: length_board_examples)
  from 1 2 show ?thesis by (simp add: length_board_examples)
qed

section \<open>Apply and undo\<close>

text \<open>
  Claim C1. For every move the generator lists for a player on a board of 9 cells,
  \<^verbatim>\<open>applyMove\<close> succeeds and \<^verbatim>\<open>undoMoveGeneric\<close> on its result gives back exactly the
  state before: the 9 stacks and both players' counts. In between, a placement has put
  the new piece on the destination and taken one from the player's count of that size; a
  relocation has taken the top piece of the source, put it on the destination and left
  the inventory alone.
\<close>

theorem apply_then_undo_restores:
  assumes "length (board s) = 9" and "generateAllMoves p s = Inr moves" and "m \<in> set moves"
  shows "\<exists>s1. applyMove m p s = Inr s1 \<and> undoMoveGeneric m p s1 = Inr s \<and>
           (case m of
              Place index sz \<Rightarrow>
                board s1 = (board s)[index := board s ! index @ [\<lparr>player = p, psize = sz\<rparr>]] \<and>
                remaining (piecesLeft s1) p sz = remaining (piecesLeft s) p sz - 1
            | Move from to sz \<Rightarrow>
                board s1 = (board s)[from := butlast (board s ! from),
                                     to := board s ! to @ [last (board s ! from)]] \<and>
                piecesLeft s1 = piecesLeft s)"
proof -
  from assms have m: "m \<in> set (generateMoves_spec p s)"
    by (simp add: generateAllMoves_eq)
  from legal_roundtrip[OF assms(1) m] obtain s1 where
    s1: "applyMove m p s = Inr s1" "undoMoveGeneric m p s1 = Inr s" by blast
  show ?thesis
  proof (cases m)
    case (Place i sz)
    with m assms(1) have "i < length (board s)" by (simp add: spec_Place_iff)
    then have "board s1 = (board s)[i := board s ! i @ [\<lparr>player = p, psize = sz\<rparr>]] \<and>
               remaining (piecesLeft s1) p sz = remaining (piecesLeft s) p sz - 1"
      using s1(1) Place
      by (cases p; cases sz)
         (auto simp: applyMove_def stackAt_def remaining_def setRemaining_def
            countOf_def setCount_def)
    with s1 Place show ?thesis by simp
  next
    case (Move f t sz)
    with m assms(1) have b: "f < length (board s)" "t < length (board s)" "t \<noteq> f"
      and "\<exists>tp. topOf (board s ! f) = Some tp"
      by (auto simp: spec_Move_iff)
    then have ne: "board s ! f \<noteq> []" by (auto simp: topOf_def split: if_splits)
    have "board s1 = (board s)[f := butlast (board s ! f), t := board s ! t @ [last (board s ! f)]] \<and>
          piecesLeft s1 = piecesLeft s"
      using s1(1) Move b ne by (auto simp: applyMove_def stackAt_def topOf_def Let_def)
    with s1 Move show ?thesis by simp
  qed
qed

theorem apply_then_undo_restores_witness:
  "length (board initialState) = 9 \<and>
   (\<exists>moves. generateAllMoves PlayerX initialState = Inr moves \<and> Place 4 Small \<in> set moves) \<and>
   applyMove (Place 4 Small) PlayerX initialState = Inr centreTaken \<and>
   undoMoveGeneric (Place 4 Small) PlayerX centreTaken = Inr initialState \<and>
   length (board centreTaken) = 9 \<and>
   (\<exists>moves. generateAllMoves PlayerX centreTaken = Inr moves \<and> Move 4 0 Small \<in> set moves) \<and>
   (\<exists>s1. applyMove (Move 4 0 Small) PlayerX centreTaken = Inr s1 \<and>
         undoMoveGeneric (Move 4 0 Small) PlayerX s1 = Inr centreTaken \<and>
         board s1 ! 0 = [pieceOf PlayerX Small] \<and> board s1 ! 4 = [])"
proof -
  note b = length_board_examples(1) and b' = length_board_examples(2)
  have r: "remaining (piecesLeft initialState) PlayerX Small = 2"
    by (simp add: initialState_def remaining_def countOf_def)
  have g: "generateAllMoves PlayerX initialState = Inr (generateMoves_spec PlayerX initialState)"
    using b by (rule generateAllMoves_eq)
  have m: "Place 4 Small \<in> set (generateMoves_spec PlayerX initialState)"
    by (simp add: spec_Place_iff canPlaceOk_iff b r)
       (simp add: initialState_def topRank_def topOf_def)
  have g': "generateAllMoves PlayerX centreTaken = Inr (generateMoves_spec PlayerX centreTaken)"
    using b' by (rule generateAllMoves_eq)
  from apply_then_undo_restores [OF b g m]
  have 1: "undoMoveGeneric (Place 4 Small) PlayerX centreTaken = Inr initialState"
    by (auto simp: place_centre)
  from apply_then_undo_restores [OF b' g' centre_moves(1)]
  have 2: "\<exists>s1. applyMove (Move 4 0 Small) PlayerX centreTaken = Inr s1 \<and>
         undoMoveGeneric (Move 4 0 Small) PlayerX s1 = Inr centreTaken \<and>
         board s1 ! 0 = [pieceOf PlayerX Small] \<and> board s1 ! 4 = []"
    by (auto simp: centreTaken_def)
  from 1 2 b b' g g' m centre_moves(1) place_centre show ?thesis by simp
qed

section \<open>The stacks stay strictly increasing\<close>

lemma increasing_butlast: "increasing st \<Longrightarrow> increasing (butlast st)"
  unfolding increasing_def
  by (induction st) (auto dest: in_set_butlastD)

lemma increasing_last: "increasing st \<Longrightarrow> x \<in> set st \<Longrightarrow> rank (psize x) \<le> rank (psize (last st))"
  unfolding increasing_def
  by (induction st) (auto simp: less_imp_le)

lemma increasing_push:
  assumes "increasing st" and "topRank st < rank (psize x)"
  shows "increasing (st @ [x])"
proof -
  have "\<forall>y \<in> set st. rank (psize y) < rank (psize x)"
  proof
    fix y assume y: "y \<in> set st"
    then have "st \<noteq> []" by auto
    with assms(2) have "rank (psize (last st)) < rank (psize x)"
      by (simp add: topRank_def topOf_def)
    with increasing_last[OF assms(1) y] show "rank (psize y) < rank (psize x)" by simp
  qed
  with assms(1) show ?thesis by (simp add: increasing_def sorted_wrt_append)
qed

lemma canPlace_TrueD:
  "canPlace i p sz isMove s = Inr True \<Longrightarrow> i < length (board s) \<and> topRank (board s ! i) < rank sz"
  by (cases "i < length (board s)") (simp_all add: canPlace_rank, simp add: canPlace_def stackAt_def)

lemma topAt_SomeD:
  "topAt b i = Inr (Some t) \<Longrightarrow> i < length b \<and> b ! i \<noteq> [] \<and> last (b ! i) = t"
  by (auto simp: topAt_def stackAt_def topOf_def split: if_splits)

lemma place_keeps_increasing:
  assumes inc: "\<forall>st \<in> set (board s). increasing st"
    and ok: "canPlace i p sz False s = Inr True"
    and ap: "applyMove (Place i sz) p s = Inr s'"
  shows "length (board s') = length (board s) \<and> (\<forall>st \<in> set (board s'). increasing st)"
proof -
  from canPlace_TrueD[OF ok] have i: "i < length (board s)"
    and r: "topRank (board s ! i) < rank sz" by simp_all
  have "increasing (board s ! i)" using inc i by simp
  with r have "increasing (board s ! i @ [\<lparr>player = p, psize = sz\<rparr>])"
    by (intro increasing_push) simp_all
  moreover have "board s' = (board s)[i := board s ! i @ [\<lparr>player = p, psize = sz\<rparr>]]"
    using ap i by (auto simp: applyMove_def stackAt_def)
  ultimately show ?thesis using inc by (auto dest!: set_update_subset_insert[THEN subsetD])
qed

lemma relocate_keeps_increasing:
  assumes inc: "\<forall>st \<in> set (board s). increasing st"
    and tp: "topAt (board s) f = Inr (Some tp)"
    and ok: "canPlace t p (psize tp) True s = Inr True"
    and ap: "applyMove (Move f t sz) p s = Inr s'"
  shows "length (board s') = length (board s) \<and> (\<forall>st \<in> set (board s'). increasing st)"
proof -
  from topAt_SomeD[OF tp] have f: "f < length (board s)" and ne: "board s ! f \<noteq> []"
    and l: "last (board s ! f) = tp" by simp_all
  from canPlace_TrueD[OF ok] have t: "t < length (board s)"
    and r: "topRank (board s ! t) < rank (psize tp)" by simp_all
  have "t \<noteq> f"
  proof
    assume "t = f"
    with r ne l show False by (simp add: topRank_def topOf_def)
  qed
  have "increasing (board s ! t)" using inc t by simp
  with r have 1: "increasing (board s ! t @ [tp])" by (intro increasing_push)
  have 2: "increasing (butlast (board s ! f))" using inc f by (simp add: increasing_butlast)
  have "board s' = ((board s)[f := butlast (board s ! f)])[t := board s ! t @ [tp]]"
    using ap f t \<open>t \<noteq> f\<close> ne l by (auto simp: applyMove_def stackAt_def topOf_def Let_def)
  with 1 2 inc show ?thesis by (auto dest!: set_update_subset_insert[THEN subsetD])
qed

lemma generated_move_reachable:
  assumes r: "reachable s" and wf: "length (board s) = 9"
    and m: "m \<in> set (generateMoves_spec p s)" and ap: "applyMove m p s = Inr s'"
  shows "reachable s'"
proof (cases m)
  case (Place i sz)
  with m wf have "canPlace i p sz False s = Inr True"
    by (simp add: spec_Place_iff canPlaceOk_def)
  with r ap Place show ?thesis by (auto intro: reachable.place)
next
  case (Move f t sz)
  with m wf obtain tp where "f < length (board s)" "topOf (board s ! f) = Some tp" "psize tp = sz"
    and "canPlace t p sz True s = Inr True"
    by (auto simp: spec_Move_iff canPlaceOk_def)
  then have "topAt (board s) f = Inr (Some tp)" "canPlace t p (psize tp) True s = Inr True"
    by (simp_all add: topAt_Inr)
  with r ap Move show ?thesis by (auto intro: reachable.relocate)
qed

lemma applyMove_length: "applyMove m p s = Inr s' \<Longrightarrow> length (board s') = length (board s)"
  by (cases m) (auto simp: applyMove_def Let_def split: option.splits)

lemma reachable_length: "reachable s \<Longrightarrow> length (board s) = 9"
  by (induction rule: reachable.induct) (simp_all add: initialState_def applyMove_length)

lemma reachable_increasing: "reachable s \<Longrightarrow> \<forall>stack \<in> set (board s). increasing stack"
proof (induction rule: reachable.induct)
  case init
  show ?case by (simp add: initialState_def increasing_def)
next
  case (place s index p sz s')
  then show ?case using place_keeps_increasing[of s index p sz s'] by simp
next
  case (relocate s "from" t to p sz s')
  then show ?case using relocate_keeps_increasing[of s "from" t to p sz s'] by simp
qed


section \<open>Minimax\<close>

declare minimax.simps [simp del] placeCells.simps [simp del]
  moveTargets.simps [simp del] moveSources.simps [simp del]

lemma detectWinnerPlayer_Inr:
  "length (board s) = 9 \<Longrightarrow> \<exists>w. detectWinnerPlayer s = Inr w"
  by (simp add: detectWinnerPlayer_def detectWinnerLoop_find wins_inBoard)

lemma Math_max_Finite:
  "best = NegInfinity \<or> (\<exists>b. best = Finite b) \<Longrightarrow> \<exists>b'. Math_max best (Finite v) = Finite b'"
  by (auto simp: Math_max_def)

lemma Math_min_Finite:
  "best = PosInfinity \<or> (\<exists>b. best = Finite b) \<Longrightarrow> \<exists>b'. Math_min best (Finite v) = Finite b'"
  by (auto simp: Math_min_def)

lemma minimax_restores:
  "length (board s) = 9 \<Longrightarrow>
     \<exists>v. minimax depth isMax botP human alpha beta limit s = Inr (Finite v, s)"
  "length (board s) = 9 \<Longrightarrow> set ms \<subseteq> set (generateMoves_spec p s) \<Longrightarrow>
     (\<exists>b. bestScore = Finite b) \<or>
       (ms \<noteq> [] \<and> bestScore = (if isMax then NegInfinity else PosInfinity)) \<Longrightarrow>
     \<exists>v. minimaxLoop ms p bestScore depth isMax botP human alpha beta limit s = Inr (Finite v, s)"
proof (induction depth isMax botP human alpha beta limit s
         and ms p bestScore depth isMax botP human alpha beta limit s
       rule: minimax_minimaxLoop.induct)
  case (1 depth isMax botP human alpha beta limit s)
  from "1.prems" obtain w where w: "detectWinnerPlayer s = Inr w"
    using detectWinnerPlayer_Inr by blast
  let ?p = "if isMax then botP else human"
  have g: "generateAllMoves ?p s = Inr (generateMoves_spec ?p s)"
    using "1.prems" by (rule generateAllMoves_eq)
  show ?case
  proof (cases "w = Some botP \<or> w = Some human \<or> limit \<le> depth \<or> generateMoves_spec ?p s = []")
    case True
    then show ?thesis
      by (subst minimax.simps) (auto simp: w g)
  next
    case False
    then have c: "w \<noteq> Some botP" "w \<noteq> Some human" "\<not> limit \<le> depth"
      "generateMoves_spec ?p s \<noteq> []" by auto
    have "\<exists>v. minimaxLoop (generateMoves_spec ?p s) ?p (if isMax then NegInfinity else PosInfinity)
            depth isMax botP human alpha beta limit s = Inr (Finite v, s)"
      using "1.IH"[OF w c(1) c(2) c(3) g c(4) "1.prems"] c(4) by simp
    then show ?thesis
      using c by (subst minimax.simps) (simp add: w g)
  qed
next
  case (2 p bestScore depth isMax botP human alpha beta limit s)
  then show ?case by auto
next
  case (3 m ms p bestScore depth isMax botP human alpha beta limit s)
  from "3.prems" have m: "m \<in> set (generateMoves_spec p s)"
    and ms: "set ms \<subseteq> set (generateMoves_spec p s)" by simp_all
  from legal_roundtrip[OF "3.prems"(1) m] obtain s1 where
    a: "applyMove m p s = Inr s1" and wf1: "length (board s1) = 9"
    and u: "undoMoveGeneric m p s1 = Inr s" by blast
  from "3.IH"(1)[OF a wf1] obtain v where
    mm: "minimax (depth + 1) (\<not> isMax) botP human alpha beta limit s1 = Inr (Finite v, s1)"
    by blast
  let ?best = "if isMax then Math_max bestScore (Finite v) else Math_min bestScore (Finite v)"
  let ?alpha = "if isMax then Math_max alpha (Finite v) else alpha"
  let ?beta = "if isMax then beta else Math_min beta (Finite v)"
  from "3.prems"(3) obtain b' where b': "?best = Finite b'"
    using Math_max_Finite[of bestScore v] Math_min_Finite[of bestScore v]
    by (cases isMax) auto
  show ?case
  proof (cases "number_le ?beta ?alpha")
    case True
    then show ?thesis using a mm u b' by (simp add: Let_def)
  next
    case False
    have "\<exists>v'. minimaxLoop ms p ?best depth isMax botP human ?alpha ?beta limit s = Inr (Finite v', s)"
      using "3.IH"(2)[OF a mm refl u refl refl refl False "3.prems"(1) ms] b' by simp
    then show ?thesis using a mm u False by (simp add: Let_def)
  qed
qed

lemma number_gt_Finite [simp]: "number_gt (Finite a) (Finite b) \<longleftrightarrow> b < a"
  by (auto simp: number_gt_def)

lemma number_gt_NegInfinity [simp]: "number_gt (Finite a) NegInfinity"
  by (simp add: number_gt_def)

lemma number_gt_between:
  "\<not> number_gt (Finite x) best \<Longrightarrow> number_gt (Finite y) best \<Longrightarrow> x < y"
  by (cases best) (auto simp: number_gt_def)

lemma firstBest_char:
  "(firstBest sc ms best bm = bm \<and> (\<forall>m \<in> set ms. \<not> number_gt (Finite (sc m)) best)) \<or>
   (\<exists>pre m post. ms = pre @ m # post \<and> firstBest sc ms best bm = Some m \<and>
      number_gt (Finite (sc m)) best \<and>
      (\<forall>x \<in> set pre. sc x < sc m) \<and> (\<forall>x \<in> set post. sc x \<le> sc m))"
proof (induction ms arbitrary: best bm)
  case Nil
  show ?case by simp
next
  case (Cons m ms)
  show ?case
  proof (cases "number_gt (Finite (sc m)) best")
    case True
    from Cons.IH[of "Finite (sc m)" "Some m"] show ?thesis
    proof
      assume a: "firstBest sc ms (Finite (sc m)) (Some m) = Some m \<and>
        (\<forall>x \<in> set ms. \<not> number_gt (Finite (sc x)) (Finite (sc m)))"
      have "m # ms = [] @ m # ms \<and> firstBest sc (m # ms) best bm = Some m \<and>
        number_gt (Finite (sc m)) best \<and>
        (\<forall>x \<in> set []. sc x < sc m) \<and> (\<forall>x \<in> set ms. sc x \<le> sc m)"
        using a True by auto
      then show ?thesis by blast
    next
      assume "\<exists>pre m' post. ms = pre @ m' # post \<and>
        firstBest sc ms (Finite (sc m)) (Some m) = Some m' \<and>
        number_gt (Finite (sc m')) (Finite (sc m)) \<and>
        (\<forall>x \<in> set pre. sc x < sc m') \<and> (\<forall>x \<in> set post. sc x \<le> sc m')"
      then obtain pre m' post where b: "ms = pre @ m' # post"
        "firstBest sc ms (Finite (sc m)) (Some m) = Some m'"
        "sc m < sc m'" "\<forall>x \<in> set pre. sc x < sc m'" "\<forall>x \<in> set post. sc x \<le> sc m'"
        by auto
      from True b(3) have "number_gt (Finite (sc m')) best"
        by (cases best) (auto simp: number_gt_def)
      then have "m # ms = (m # pre) @ m' # post \<and> firstBest sc (m # ms) best bm = Some m' \<and>
        number_gt (Finite (sc m')) best \<and>
        (\<forall>x \<in> set (m # pre). sc x < sc m') \<and> (\<forall>x \<in> set post. sc x \<le> sc m')"
        using b True by auto
      then show ?thesis by blast
    qed
  next
    case False
    from Cons.IH[of best bm] show ?thesis
    proof
      assume "firstBest sc ms best bm = bm \<and> (\<forall>x \<in> set ms. \<not> number_gt (Finite (sc x)) best)"
      then show ?thesis using False by auto
    next
      assume "\<exists>pre m' post. ms = pre @ m' # post \<and> firstBest sc ms best bm = Some m' \<and>
        number_gt (Finite (sc m')) best \<and>
        (\<forall>x \<in> set pre. sc x < sc m') \<and> (\<forall>x \<in> set post. sc x \<le> sc m')"
      then obtain pre m' post where b: "ms = pre @ m' # post"
        "firstBest sc ms best bm = Some m'" "number_gt (Finite (sc m')) best"
        "\<forall>x \<in> set pre. sc x < sc m'" "\<forall>x \<in> set post. sc x \<le> sc m'"
        by auto
      from number_gt_between[OF False b(3)] have "sc m < sc m'" .
      then have "m # ms = (m # pre) @ m' # post \<and> firstBest sc (m # ms) best bm = Some m' \<and>
        number_gt (Finite (sc m')) best \<and>
        (\<forall>x \<in> set (m # pre). sc x < sc m') \<and> (\<forall>x \<in> set post. sc x \<le> sc m')"
        using b False by auto
      then show ?thesis by blast
    qed
  qed
qed

lemma candidateScore_Finite:
  assumes "length (board s) = 9" and "m \<in> set (generateMoves_spec botP s)"
  shows "\<exists>s1 v. applyMove m botP s = Inr s1 \<and> undoMoveGeneric m botP s1 = Inr s \<and>
           minimax 1 False botP (if botP = PlayerO then PlayerX else PlayerO)
             NegInfinity PosInfinity depthLimit s1 = Inr (Finite v, s1) \<and>
           candidateScore botP s m = Inr (Finite v)"
proof -
  from legal_roundtrip[OF assms] obtain s1 where
    a: "applyMove m botP s = Inr s1" and wf1: "length (board s1) = 9"
    and u: "undoMoveGeneric m botP s1 = Inr s" by blast
  from minimax_restores(1)[OF wf1] obtain v where
    "minimax 1 False botP (if botP = PlayerO then PlayerX else PlayerO)
       NegInfinity PosInfinity depthLimit s1 = Inr (Finite v, s1)" by blast
  with a u show ?thesis by (simp add: candidateScore_def)
qed

lemma bestMoveLoop_firstBest:
  assumes "length (board s) = 9"
  shows "set ms \<subseteq> set (generateMoves_spec botP s) \<Longrightarrow>
    bestMoveLoop ms botP (if botP = PlayerO then PlayerX else PlayerO) best bm s =
      Inr (firstBest (\<lambda>m. finiteScore (candidateScore botP s m)) ms best bm, s)"
proof (induction ms arbitrary: best bm)
  case Nil
  show ?case by simp
next
  case (Cons m ms)
  then have m: "m \<in> set (generateMoves_spec botP s)"
    and ms: "set ms \<subseteq> set (generateMoves_spec botP s)" by simp_all
  from candidateScore_Finite[OF assms m] obtain s1 v where
    a: "applyMove m botP s = Inr s1" and u: "undoMoveGeneric m botP s1 = Inr s"
    and mm: "minimax 1 False botP (if botP = PlayerO then PlayerX else PlayerO)
             NegInfinity PosInfinity depthLimit s1 = Inr (Finite v, s1)"
    and c: "candidateScore botP s m = Inr (Finite v)" by blast
  have f: "finiteScore (candidateScore botP s m) = v" by (simp add: c finiteScore_def)
  show ?case
    using Cons.IH[OF ms] by (simp add: a u mm f)
qed

text \<open>
  Claim C3. Whatever the state, \<^verbatim>\<open>minimax\<close> returns, before any recursion and in this
  order of precedence: 100 minus the depth when the winner is the machine player;
  otherwise -100 plus the depth when the winner is the human player; otherwise 0 when
  the depth has reached the limit; otherwise 0 when the side to move has no legal move.
  The state is left as it was.
\<close>

theorem minimax_base_cases:
  assumes "detectWinnerPlayer s = Inr w"
  shows "(w = Some botP \<longrightarrow>
            minimax depth isMax botP human alpha beta limit s = Inr (Finite (100 - depth), s)) \<and>
         (w \<noteq> Some botP \<and> w = Some human \<longrightarrow>
            minimax depth isMax botP human alpha beta limit s = Inr (Finite (- 100 + depth), s)) \<and>
         (w \<noteq> Some botP \<and> w \<noteq> Some human \<and> limit \<le> depth \<longrightarrow>
            minimax depth isMax botP human alpha beta limit s = Inr (Finite 0, s)) \<and>
         (w \<noteq> Some botP \<and> w \<noteq> Some human \<and> depth < limit \<and>
          generateAllMoves (if isMax then botP else human) s = Inr [] \<longrightarrow>
            minimax depth isMax botP human alpha beta limit s = Inr (Finite 0, s))"
  using assms by (subst (1 2 3 4) minimax.simps) simp

theorem minimax_base_cases_witness:
  "detectWinnerPlayer (topRowOf PlayerO) = Inr (Some PlayerO) \<and>
   minimax 1 False PlayerO PlayerX NegInfinity PosInfinity 4 (topRowOf PlayerO)
     = Inr (Finite 99, topRowOf PlayerO) \<and>
   detectWinnerPlayer (topRowOf PlayerX) = Inr (Some PlayerX) \<and>
   minimax 2 True PlayerO PlayerX NegInfinity PosInfinity 4 (topRowOf PlayerX)
     = Inr (Finite (- 98), topRowOf PlayerX) \<and>
   detectWinnerPlayer initialState = Inr None \<and>
   minimax 4 True PlayerO PlayerX NegInfinity PosInfinity 4 initialState
     = Inr (Finite 0, initialState) \<and>
   detectWinnerPlayer hemmedIn = Inr None \<and>
   generateAllMoves PlayerX hemmedIn = Inr [] \<and>
   minimax 1 False PlayerO PlayerX NegInfinity PosInfinity 4 hemmedIn
     = Inr (Finite 0, hemmedIn)"
  using minimax_base_cases [OF topRowOf_winner_O, of PlayerO 1 False PlayerX NegInfinity PosInfinity 4]
    minimax_base_cases [OF topRowOf_winner_X, of PlayerO 2 True PlayerX NegInfinity PosInfinity 4]
    minimax_base_cases [OF initialState_no_winner, of PlayerO 4 True PlayerX NegInfinity PosInfinity 4]
    minimax_base_cases [OF hemmedIn_no_winner, of PlayerO 1 False PlayerX NegInfinity PosInfinity 4]
    topRowOf_winner_O topRowOf_winner_X initialState_no_winner hemmedIn_no_winner hemmedIn_no_moves_X
  by simp

text \<open>
  Claim C4. On a board of 9 cells the top-level driver leaves the state as it was and
  returns no move exactly when the generator lists none for the machine player.
  Otherwise it returns a generated move whose one-ply-ahead evaluation is an integer, is
  strictly greater than that of every candidate generated before it and at least that of
  every candidate generated after it: the first candidate of maximal evaluation.
\<close>

theorem minimaxBestMove_first_maximal:
  assumes "length (board s) = 9"
  shows "\<exists>moves r. generateAllMoves botP s = Inr moves \<and>
           minimaxBestMove botP s = Inr (r, s) \<and>
           (r = None \<longleftrightarrow> moves = []) \<and>
           (\<forall>m. r = Some m \<longrightarrow>
              (\<exists>pre post v. moves = pre @ m # post \<and>
                 candidateScore botP s m = Inr (Finite v) \<and>
                 (\<forall>x \<in> set pre. \<exists>u. candidateScore botP s x = Inr (Finite u) \<and> u < v) \<and>
                 (\<forall>x \<in> set post. \<exists>u. candidateScore botP s x = Inr (Finite u) \<and> u \<le> v)))"
proof -
  let ?moves = "generateMoves_spec botP s"
  let ?sc = "\<lambda>m. finiteScore (candidateScore botP s m)"
  let ?r = "firstBest ?sc ?moves NegInfinity None"
  have g: "generateAllMoves botP s = Inr ?moves"
    using assms by (rule generateAllMoves_eq)
  have b: "minimaxBestMove botP s = Inr (?r, s)"
    using bestMoveLoop_firstBest[OF assms subset_refl, of botP NegInfinity None]
    by (simp add: minimaxBestMove_def g)
  have sc: "candidateScore botP s x = Inr (Finite (?sc x))" if "x \<in> set ?moves" for x
    using candidateScore_Finite[OF assms that] by (auto simp: finiteScore_def)
  from firstBest_char[of ?sc ?moves NegInfinity None]
  have c: "(?r = None \<longleftrightarrow> ?moves = []) \<and>
        (\<forall>m. ?r = Some m \<longrightarrow>
              (\<exists>pre post v. ?moves = pre @ m # post \<and>
                 candidateScore botP s m = Inr (Finite v) \<and>
                 (\<forall>x \<in> set pre. \<exists>u. candidateScore botP s x = Inr (Finite u) \<and> u < v) \<and>
                 (\<forall>x \<in> set post. \<exists>u. candidateScore botP s x = Inr (Finite u) \<and> u \<le> v)))"
  proof
    assume a: "?r = None \<and> (\<forall>m \<in> set ?moves. \<not> number_gt (Finite (?sc m)) NegInfinity)"
    then have "?moves = []" by (cases ?moves) auto
    with a show ?thesis by simp
  next
    assume "\<exists>pre m post. ?moves = pre @ m # post \<and> ?r = Some m \<and>
      number_gt (Finite (?sc m)) NegInfinity \<and>
      (\<forall>x \<in> set pre. ?sc x < ?sc m) \<and> (\<forall>x \<in> set post. ?sc x \<le> ?sc m)"
    then obtain pre m post where d: "?moves = pre @ m # post" "?r = Some m"
      "\<forall>x \<in> set pre. ?sc x < ?sc m" "\<forall>x \<in> set post. ?sc x \<le> ?sc m"
      by blast
    have in_pre: "x \<in> set ?moves" if "x \<in> set pre" for x
      using that by (subst d(1)) simp
    have in_post: "x \<in> set ?moves" if "x \<in> set post" for x
      using that by (subst d(1)) simp
    have in_m: "m \<in> set ?moves" by (subst d(1)) simp
    have "?moves = pre @ m # post \<and>
          candidateScore botP s m = Inr (Finite (?sc m)) \<and>
          (\<forall>x \<in> set pre. \<exists>u. candidateScore botP s x = Inr (Finite u) \<and> u < ?sc m) \<and>
          (\<forall>x \<in> set post. \<exists>u. candidateScore botP s x = Inr (Finite u) \<and> u \<le> ?sc m)"
      using d sc[OF in_m] sc[OF in_pre] sc[OF in_post] by blast
    then have "\<exists>pre post v. ?moves = pre @ m # post \<and>
          candidateScore botP s m = Inr (Finite v) \<and>
          (\<forall>x \<in> set pre. \<exists>u. candidateScore botP s x = Inr (Finite u) \<and> u < v) \<and>
          (\<forall>x \<in> set post. \<exists>u. candidateScore botP s x = Inr (Finite u) \<and> u \<le> v)"
      by blast
    moreover have "?moves \<noteq> []" by (subst d(1)) simp
    ultimately show ?thesis using d(2) by simp
  qed
  have "\<exists>r. generateAllMoves botP s = Inr ?moves \<and>
           minimaxBestMove botP s = Inr (r, s) \<and>
           (r = None \<longleftrightarrow> ?moves = []) \<and>
           (\<forall>m. r = Some m \<longrightarrow>
              (\<exists>pre post v. ?moves = pre @ m # post \<and>
                 candidateScore botP s m = Inr (Finite v) \<and>
                 (\<forall>x \<in> set pre. \<exists>u. candidateScore botP s x = Inr (Finite u) \<and> u < v) \<and>
                 (\<forall>x \<in> set post. \<exists>u. candidateScore botP s x = Inr (Finite u) \<and> u \<le> v)))"
    by (rule exI[of _ ?r]) (rule conjI[OF g conjI[OF b c]])
  then show ?thesis by (rule exI[of _ ?moves])
qed

theorem minimaxBestMove_first_maximal_witness:
  "length (board hemmedIn) = 9 \<and>
   minimaxBestMove PlayerX hemmedIn = Inr (None, hemmedIn) \<and>
   length (board initialState) = 9 \<and>
   (\<exists>m. minimaxBestMove PlayerO initialState = Inr (Some m, initialState))"
proof -
  have b: "length (board initialState) = 9" by (simp add: initialState_def)
  have b': "length (board hemmedIn) = 9" by (simp add: hemmedIn_def)
  have r: "remaining (piecesLeft initialState) PlayerO Small = 2"
    by (simp add: initialState_def remaining_def countOf_def)
  have g: "generateAllMoves PlayerO initialState = Inr (generateMoves_spec PlayerO initialState)"
    using b by (rule generateAllMoves_eq)
  have m: "Place 4 Small \<in> set (generateMoves_spec PlayerO initialState)"
    by (simp add: spec_Place_iff canPlaceOk_iff b r)
       (simp add: initialState_def topRank_def topOf_def)
  then have ne: "generateMoves_spec PlayerO initialState \<noteq> []" by auto
  from minimaxBestMove_first_maximal [OF b, of PlayerO] g ne
  have "\<exists>m. minimaxBestMove PlayerO initialState = Inr (Some m, initialState)" by auto
  moreover from minimaxBestMove_first_maximal [OF b', of PlayerX] hemmedIn_no_moves_X
  have "minimaxBestMove PlayerX hemmedIn = Inr (None, hemmedIn)" by auto
  ultimately show ?thesis using b b' by simp
qed
section \<open>The heuristic tiers\<close>

lemma checkWinner_Inr: "length (board s) = 9 \<Longrightarrow> \<exists>w. checkWinner s = Inr w"
  by (simp add: checkWinner_def checkWinnerLoop_find wins_inBoard)

lemma findWinningLoop_find:
  assumes "length (board s) = 9"
  shows "set ms \<subseteq> set (generateMoves_spec p s) \<Longrightarrow>
         findWinningLoop ms p s = Inr (find (winsAfter p s) ms, s)"
proof (induction ms)
  case Nil
  show ?case by simp
next
  case (Cons m ms)
  then have m: "m \<in> set (generateMoves_spec p s)"
    and ms: "set ms \<subseteq> set (generateMoves_spec p s)" by simp_all
  from legal_roundtrip[OF assms m] obtain s1 where
    a: "applyMove m p s = Inr s1" and wf1: "length (board s1) = 9"
    and u: "undoMoveGeneric m p s1 = Inr s" by blast
  from checkWinner_Inr[OF wf1] obtain w where w: "checkWinner s1 = Inr w" by blast
  show ?case using Cons.IH[OF ms] by (simp add: a u w winsAfter_def)
qed

lemma findWinningMoveGeneric_first:
  "length (board s) = 9 \<Longrightarrow> findWinningMoveGeneric p s = Inr (firstWinningMove p s, s)"
  by (simp add: findWinningMoveGeneric_def generateAllMoves_eq findWinningLoop_find
        firstWinningMove_def)

lemma findBlockingLoop_find:
  assumes "length (board s) = 9"
  shows "set ms \<subseteq> set (generateMoves_spec botP s) \<Longrightarrow>
         findBlockingLoop ms botP (if botP = PlayerO then PlayerX else PlayerO) s =
           Inr (find (stopsWin botP s) ms, s)"
proof (induction ms)
  case Nil
  show ?case by simp
next
  case (Cons m ms)
  then have m: "m \<in> set (generateMoves_spec botP s)"
    and ms: "set ms \<subseteq> set (generateMoves_spec botP s)" by simp_all
  from legal_roundtrip[OF assms m] obtain s1 where
    a: "applyMove m botP s = Inr s1" and wf1: "length (board s1) = 9"
    and u: "undoMoveGeneric m botP s1 = Inr s" by blast
  show ?case
    using Cons.IH[OF ms]
    by (simp add: a u findWinningMoveGeneric_first[OF wf1] stopsWin_def)
qed

lemma findBlockingMoveGeneric_first:
  "length (board s) = 9 \<Longrightarrow> findBlockingMoveGeneric botP s = Inr (firstBlockingMove botP s, s)"
  by (simp add: findBlockingMoveGeneric_def findWinningMoveGeneric_first generateAllMoves_eq
        findBlockingLoop_find firstBlockingMove_def Let_def)


section \<open>No legal move\<close>

text \<open>
  In play a player always has a legal move: a large piece is never covered, so each of a
  player's two large pieces is either still to place or on top of a cell, and at most
  four of the nine cells have a large piece on top.
\<close>

lemma remaining_setRemaining:
  "remaining (setRemaining pl p sz v) q sz' =
     (if p = q \<and> sz = sz' then v else remaining pl q sz')"
  by (cases p; cases q; cases sz; cases sz')
     (simp_all add: remaining_def setRemaining_def countOf_def setCount_def)

lemma sum_list_update_nat:
  fixes xs :: "nat list"
  shows "k < length xs \<Longrightarrow> sum_list (xs[k := v]) + xs ! k = sum_list xs + v"
  by (induction xs arbitrary: k) (auto split: nat.splits)

lemma count_update:
  assumes "i < length b"
  shows "sum_list (map (\<lambda>st. count_list st x) (b[i := st'])) + count_list (b ! i) x =
         sum_list (map (\<lambda>st. count_list st x) b) + count_list st' x"
  using sum_list_update_nat[of i "map (\<lambda>st. count_list st x) b" "count_list st' x"] assms
  by (simp add: map_update)

lemma count_butlast:
  "st \<noteq> [] \<Longrightarrow> count_list (butlast st) x + (if last st = x then 1 else 0) = count_list st x"
  by (induction st) auto

lemma count_snoc: "count_list (st @ [y]) x = count_list st x + (if y = x then 1 else 0)"
  by (induction st) auto

lemma place_keeps_account:
  assumes a: "largeAccount s" and ok: "canPlace i p sz False s = Inr True"
    and ap: "applyMove (Place i sz) p s = Inr s'"
  shows "largeAccount s'"
proof -
  from canPlace_TrueD[OF ok] have i: "i < length (board s)" by simp
  from ok i have pos: "0 < remaining (piecesLeft s) p sz" by (simp add: canPlace_rank)
  have b: "board s' = (board s)[i := board s ! i @ [\<lparr>player = p, psize = sz\<rparr>]]"
    and pl: "piecesLeft s' = setRemaining (piecesLeft s) p sz (remaining (piecesLeft s) p sz - 1)"
    using ap i by (auto simp: applyMove_def stackAt_def)
  have "0 \<le> remaining (piecesLeft s') q Large \<and>
        remaining (piecesLeft s') q Large + int (largeOnBoard s' q) = 2" for q
  proof -
    from a have aq: "0 \<le> remaining (piecesLeft s) q Large"
      "remaining (piecesLeft s) q Large + int (largeOnBoard s q) = 2"
      by (simp_all add: largeAccount_def)
    have c: "largeOnBoard s' q + count_list (board s ! i) (largeOf q) =
             largeOnBoard s q + count_list (board s ! i @ [\<lparr>player = p, psize = sz\<rparr>]) (largeOf q)"
      unfolding largeOnBoard_def b using i by (rule count_update)
    show ?thesis
    proof (cases "p = q \<and> sz = Large")
      case True
      then have "largeOnBoard s' q = largeOnBoard s q + 1"
        using c by (simp add: count_snoc largeOf_def)
      with True aq pos show ?thesis by (simp add: pl remaining_setRemaining)
    next
      case False
      then have "largeOnBoard s' q = largeOnBoard s q"
        using c by (auto simp: count_snoc largeOf_def)
      with False aq show ?thesis by (auto simp: pl remaining_setRemaining)
    qed
  qed
  then show ?thesis by (simp add: largeAccount_def)
qed

lemma relocate_keeps_account:
  assumes a: "largeAccount s" and tp: "topAt (board s) f = Inr (Some tp)"
    and ok: "canPlace t p (psize tp) True s = Inr True"
    and ap: "applyMove (Move f t sz) p s = Inr s'"
  shows "largeAccount s'"
proof -
  from topAt_SomeD[OF tp] have f: "f < length (board s)" and ne: "board s ! f \<noteq> []"
    and l: "last (board s ! f) = tp" by simp_all
  from canPlace_TrueD[OF ok] have t: "t < length (board s)"
    and r: "topRank (board s ! t) < rank (psize tp)" by simp_all
  have tf: "t \<noteq> f"
  proof
    assume "t = f"
    with r ne l show False by (simp add: topRank_def topOf_def)
  qed
  let ?b1 = "(board s)[f := butlast (board s ! f)]"
  have b: "board s' = ?b1[t := board s ! t @ [tp]]" and pl: "piecesLeft s' = piecesLeft s"
    using ap f t tf ne l by (auto simp: applyMove_def stackAt_def topOf_def Let_def)
  have "largeOnBoard s' q = largeOnBoard s q" for q
  proof -
    let ?c = "\<lambda>bd. sum_list (map (\<lambda>st. count_list st (largeOf q)) bd)"
    have 1: "?c ?b1 + count_list (board s ! f) (largeOf q) =
             ?c (board s) + count_list (butlast (board s ! f)) (largeOf q)"
      using f by (rule count_update)
    have 2: "?c (?b1[t := board s ! t @ [tp]]) + count_list (?b1 ! t) (largeOf q) =
             ?c ?b1 + count_list (board s ! t @ [tp]) (largeOf q)"
      using t by (intro count_update) simp
    have 3: "?b1 ! t = board s ! t" using tf by simp
    from count_butlast[OF ne, of "largeOf q"] l
    have 4: "count_list (butlast (board s ! f)) (largeOf q) + (if tp = largeOf q then 1 else 0) =
             count_list (board s ! f) (largeOf q)" by simp
    from 1 2 3 4 show ?thesis
      by (simp add: largeOnBoard_def b count_snoc split: if_splits)
  qed
  with a pl show ?thesis by (simp add: largeAccount_def)
qed

lemma reachable_account: "reachable s \<Longrightarrow> largeAccount s"
proof (induction rule: reachable.induct)
  case init
  show ?case
    by (simp add: largeAccount_def largeOnBoard_def initialState_def remaining_def countOf_def
        split: player.splits)
next
  case (place s index p sz s')
  then show ?case using place_keeps_account by blast
next
  case (relocate s "from" t to p sz s')
  then show ?case using relocate_keeps_account by blast
qed

lemma rank_le_2: "rank sz \<le> 2"
  by (cases sz) simp_all

lemma large_is_last:
  "increasing st \<Longrightarrow> x \<in> set st \<Longrightarrow> psize x = Large \<Longrightarrow> last st = x"
proof (induction st)
  case Nil
  then show ?case by simp
next
  case (Cons a st)
  from Cons.prems(1) have inc: "increasing st" and lt: "\<forall>y \<in> set st. rank (psize a) < rank (psize y)"
    by (simp_all add: increasing_def)
  show ?case
  proof (cases "st = []")
    case True
    with Cons.prems(2) show ?thesis by simp
  next
    case False
    have "x \<noteq> a"
    proof
      assume "x = a"
      from False obtain y where y: "y \<in> set st" by (cases st) auto
      with lt \<open>x = a\<close> Cons.prems(3) have "2 < rank (psize y)" by simp
      with rank_le_2[of "psize y"] show False by simp
    qed
    with Cons.prems(2) have "x \<in> set st" by simp
    from Cons.IH[OF inc this Cons.prems(3)] False show ?thesis by simp
  qed
qed

lemma piece_large_cases: "psize x = Large \<Longrightarrow> x = largeOf PlayerX \<or> x = largeOf PlayerO"
  by (cases x; cases "player x") (simp_all add: largeOf_def)

lemma largeTop_counted:
  "largeTop st \<Longrightarrow> 1 \<le> count_list st (largeOf PlayerX) + count_list st (largeOf PlayerO)"
proof -
  assume "largeTop st"
  then have ne: "st \<noteq> []" and l: "psize (last st) = Large" by (simp_all add: largeTop_def)
  from ne have m: "last st \<in> set st" by simp
  from piece_large_cases[OF l] show ?thesis
  proof
    assume "last st = largeOf PlayerX"
    with m have "count_list st (largeOf PlayerX) \<noteq> 0" by (simp add: count_list_0_iff)
    then show ?thesis by simp
  next
    assume "last st = largeOf PlayerO"
    with m have "count_list st (largeOf PlayerO) \<noteq> 0" by (simp add: count_list_0_iff)
    then show ?thesis by simp
  qed
qed

lemma largeTops_bound:
  "length (filter largeTop b) \<le>
     sum_list (map (\<lambda>st. count_list st (largeOf PlayerX)) b) +
     sum_list (map (\<lambda>st. count_list st (largeOf PlayerO)) b)"
proof (induction b)
  case Nil
  show ?case by simp
next
  case (Cons st b)
  show ?case
  proof (cases "largeTop st")
    case True
    from largeTop_counted[OF True] Cons.IH True show ?thesis by simp
  next
    case False
    with Cons.IH show ?thesis by simp
  qed
qed

lemma some_cell_takes_large:
  assumes a: "largeAccount s" and wf: "length (board s) = 9"
  shows "\<exists>i < 9. \<not> largeTop (board s ! i)"
proof (rule ccontr)
  assume "\<not> (\<exists>i < 9. \<not> largeTop (board s ! i))"
  with wf have "\<forall>st \<in> set (board s). largeTop st" by (auto simp: in_set_conv_nth)
  then have "filter largeTop (board s) = board s" by simp
  with largeTops_bound[of "board s"] wf
  have "9 \<le> largeOnBoard s PlayerX + largeOnBoard s PlayerO"
    by (simp add: largeOnBoard_def)
  moreover from a have "0 \<le> remaining (piecesLeft s) q Large \<and>
      remaining (piecesLeft s) q Large + int (largeOnBoard s q) = 2" for q
    by (simp add: largeAccount_def)
  from this[of PlayerX] this[of PlayerO]
  have "int (largeOnBoard s PlayerX) \<le> 2" "int (largeOnBoard s PlayerO) \<le> 2"
    by linarith+
  ultimately show False by simp
qed

lemma not_largeTop_rank: "\<not> largeTop st \<Longrightarrow> topRank st < rank Large"
  by (cases "st = []"; cases "psize (last st)") (simp_all add: largeTop_def topRank_def topOf_def)

lemma reachable_has_move:
  assumes r: "reachable s"
  shows "generateMoves_spec p s \<noteq> []"
proof -
  from r have wf: "length (board s) = 9" and inc: "\<forall>stack \<in> set (board s). increasing stack"
    and a: "largeAccount s"
    by (simp_all add: reachable_length reachable_increasing reachable_account)
  from some_cell_takes_large[OF a wf] obtain i where i: "i < 9" "\<not> largeTop (board s ! i)"
    by blast
  from not_largeTop_rank[OF i(2)] have tr: "topRank (board s ! i) < rank Large" .
  from a have ap: "0 \<le> remaining (piecesLeft s) p Large"
    "remaining (piecesLeft s) p Large + int (largeOnBoard s p) = 2"
    by (simp_all add: largeAccount_def)
  show ?thesis
  proof (cases "0 < remaining (piecesLeft s) p Large")
    case True
    with i tr wf have "Place i Large \<in> set (generateMoves_spec p s)"
      by (simp add: spec_Place_iff canPlaceOk_iff)
    then show ?thesis by auto
  next
    case False
    with ap have "largeOnBoard s p \<noteq> 0" by simp
    then obtain st where st: "st \<in> set (board s)" "count_list st (largeOf p) \<noteq> 0"
      by (auto simp: largeOnBoard_def)
    then have m: "largeOf p \<in> set st" by (simp add: count_list_0_iff)
    from st(1) wf obtain f where f: "f < 9" "board s ! f = st"
      by (auto simp: in_set_conv_nth)
    from inc st(1) have "increasing st" by simp
    from large_is_last[OF this m] have l: "last st = largeOf p" by (simp add: largeOf_def)
    from m have ne: "st \<noteq> []" by auto
    with l have lt: "largeTop (board s ! f)" by (simp add: largeTop_def f largeOf_def)
    with i(2) have "i \<noteq> f" by auto
    moreover have "topOf (board s ! f) = Some (largeOf p)"
      using ne l f by (simp add: topOf_def)
    ultimately have "Move f i Large \<in> set (generateMoves_spec p s)"
      using i f tr wf by (simp add: spec_Move_iff canPlaceOk_iff largeOf_def)
    then show ?thesis by auto
  qed
qed






section \<open>The script only makes legal steps\<close>

text \<open>
  A click on a cell and a move of the machine player change the board by a legal step or
  not at all, so the states of a game are reachable states.
\<close>

lemma afterHumanMove_gstate: "afterHumanMove g = Inr g' \<Longrightarrow> gstate g' = gstate g"
  by (auto simp: afterHumanMove_def endGame_def switchTurn_def cancelSelectAll_def Let_def
      split: sum.splits if_splits)

lemma click_reachable:
  assumes r: "reachable (gstate g)" and c: "handleCellClick index g = Inr g'"
  shows "reachable (gstate g')"
proof (cases "selectedFrom g = Some index")
  case True
  with c have "g' = cancelSelectAll g" by (simp add: handleCellClick_def)
  with r show ?thesis by (simp add: cancelSelectAll_def)
next
  case ns: False
  let ?s = "gstate g" and ?p = "currentPlayer g"
  from c ns obtain tp where tp: "topAt (board ?s) index = Inr tp"
    by (cases "topAt (board ?s) index") (simp_all add: handleCellClick_def)
  show ?thesis
  proof (cases "case tp of None \<Rightarrow> False | Some t \<Rightarrow> player t = ?p")
    case True
    with c ns tp have "g' = g\<lparr>selectedFrom := Some index, selectedSize := None\<rparr>"
      by (simp add: handleCellClick_def)
    with r show ?thesis by simp
  next
    case own: False
    show ?thesis
    proof (cases "selectedFrom g")
      case (Some f)
      with ns have fi: "f \<noteq> index" by auto
      from c ns tp own Some obtain mp where mp: "topAt (board ?s) f = Inr mp"
        by (cases "topAt (board ?s) f") (simp_all add: handleCellClick_def)
      show ?thesis
      proof (cases mp)
        case None
        with c ns tp own Some mp have "g' = g" by (simp add: handleCellClick_def)
        with r show ?thesis by simp
      next
        case (Some t)
        note t = mp[unfolded Some]
        from c ns tp own \<open>selectedFrom g = Some f\<close> t obtain ok where
          ok: "canPlace index ?p (psize t) True ?s = Inr ok"
          by (cases "canPlace index ?p (psize t) True ?s") (simp_all add: handleCellClick_def)
        show ?thesis
        proof (cases ok)
          case False
          with c ns tp own \<open>selectedFrom g = Some f\<close> t ok have "g' = g"
            by (simp add: handleCellClick_def)
          with r show ?thesis by simp
        next
          case True
          let ?b1 = "(board ?s)[f := butlast (board ?s ! f)]"
          let ?s' = "?s\<lparr>board := ?b1[index := ?b1 ! index @ [t]]\<rparr>"
          from c ns tp own \<open>selectedFrom g = Some f\<close> t ok True
          have "afterHumanMove (g\<lparr>gstate := ?s', selectedFrom := None\<rparr>) = Inr g'"
            by (simp add: handleCellClick_def Let_def)
          then have g': "gstate g' = ?s'" by (auto dest: afterHumanMove_gstate)
          from topAt_SomeD[OF t] have f: "f < length (board ?s)" "board ?s ! f \<noteq> []"
            "last (board ?s ! f) = t" by simp_all
          from ok True have okT: "canPlace index ?p (psize t) True ?s = Inr True" by simp
          from canPlace_TrueD[OF okT] have i: "index < length (board ?s)" by simp
          have "applyMove (Move f index (psize t)) ?p ?s = Inr (gstate g')"
            using f i fi g' by (simp add: applyMove_def stackAt_def topOf_def Let_def)
          from reachable.relocate[OF r t okT this] show ?thesis .
        qed
      qed
    next
      case None
      show ?thesis
      proof (cases "selectedSize g")
        case nsz: None
        with c ns tp own None have "g' = g" by (simp add: handleCellClick_def)
        with r show ?thesis by simp
      next
        case (Some sz)
        from c ns tp own None Some obtain ok where
          ok: "canPlace index ?p sz False ?s = Inr ok"
          by (cases "canPlace index ?p sz False ?s") (simp_all add: handleCellClick_def)
        show ?thesis
        proof (cases ok)
          case False
          with c ns tp own None Some ok have "g' = g" by (simp add: handleCellClick_def)
          with r show ?thesis by simp
        next
          case True
          let ?s' = "?s\<lparr>board := (board ?s)[index := board ?s ! index @ [\<lparr>player = ?p, psize = sz\<rparr>]],
                          piecesLeft := setRemaining (piecesLeft ?s) ?p sz
                                          (remaining (piecesLeft ?s) ?p sz - 1)\<rparr>"
          from c ns tp own None Some ok True
          have "afterHumanMove (g\<lparr>gstate := ?s'\<rparr>) = Inr g'"
            by (simp add: handleCellClick_def Let_def)
          then have g': "gstate g' = ?s'" by (auto dest: afterHumanMove_gstate)
          from ok True have okT: "canPlace index ?p sz False ?s = Inr True" by simp
          from canPlace_TrueD[OF okT] have i: "index < length (board ?s)" by simp
          have "applyMove (Place index sz) ?p ?s = Inr (gstate g')"
            using i g' by (simp add: applyMove_def stackAt_def)
          from reachable.place[OF r okT this] show ?thesis .
        qed
      qed
    qed
  qed
qed

lemma firstBest_member:
  "firstBest sc ms best None = Some m \<Longrightarrow> m \<in> set ms"
  using firstBest_char[of sc ms best None] by auto

lemma chooseMove_member:
  assumes wf: "length (board s) = 9"
    and c: "chooseMove d botP (generateMoves_spec botP s) r s = Inr (Some m, s1)"
  shows "s1 = s \<and> m \<in> set (generateMoves_spec botP s)"
proof -
  let ?moves = "generateMoves_spec botP s"
  have rnd: "m \<in> set ?moves" if "randomMove ?moves r = Some m"
    using that by (auto simp: randomMove_def split: if_splits)
  have fw: "m \<in> set ?moves" if "firstWinningMove botP s = Some m"
    using that by (auto simp: firstWinningMove_def dest: find_SomeD)
  have fb: "m \<in> set ?moves" if "firstBlockingMove botP s = Some m"
    using that by (auto simp: firstBlockingMove_def dest: find_SomeD split: if_splits)
  have wbr: "s1 = s \<and> m \<in> set ?moves" if "winBlockRandom botP ?moves r s = Inr (Some m, s1)"
    using that wf rnd fw fb
    by (auto simp: winBlockRandom_def findWinningMoveGeneric_first findBlockingMoveGeneric_first
        split: if_splits)
  have mm: "minimaxBestMove botP s =
      Inr (firstBest (\<lambda>m. finiteScore (candidateScore botP s m)) ?moves NegInfinity None, s)"
    using bestMoveLoop_firstBest[OF wf subset_refl, of botP NegInfinity None] wf
    by (simp add: minimaxBestMove_def generateAllMoves_eq)
  show ?thesis
  proof (cases "d = ''easy''")
    case True
    with c have "s1 = s" "randomMove ?moves r = Some m" by (auto simp: chooseMove_def)
    with rnd show ?thesis by simp
  next
    case ne: False
    show ?thesis
    proof (cases "d = ''medium'' \<or> d = ''hard''")
      case True
      with c ne wbr show ?thesis by (auto simp: chooseMove_def)
    next
      case False
      with c ne rnd show ?thesis
        by (auto simp: chooseMove_def mm split: if_splits dest: firstBest_member)
    qed
  qed
qed

lemma botMove_reachable:
  assumes r: "reachable (gstate g)" and c: "botMove k g = Inr g'"
  shows "reachable (gstate g')"
proof -
  let ?s = "gstate g" and ?moves = "generateMoves_spec PlayerO (gstate g)"
  from reachable_length[OF r] have wf: "length (board ?s) = 9" .
  then have g: "generateAllMoves PlayerO ?s = Inr ?moves" by (rule generateAllMoves_eq)
  show ?thesis
  proof (cases "?moves = []")
    case True
    with c g have "g' = endGame Draw g" by (simp add: botMove_def)
    with r show ?thesis by (simp add: endGame_def)
  next
    case ne: False
    from c g ne obtain mo s1 where ch: "chooseMove (difficulty g) PlayerO ?moves k ?s = Inr (mo, s1)"
      by (cases "chooseMove (difficulty g) PlayerO ?moves k ?s") (auto simp: botMove_def)
    from c g ne ch obtain m where mo: "mo = Some m"
      by (cases mo) (auto simp: botMove_def)
    from chooseMove_member[OF wf ch[unfolded mo]] have s1: "s1 = ?s" and m: "m \<in> set ?moves"
      by simp_all
    from c g ne ch mo s1 obtain s2 where ap: "applyMove m PlayerO ?s = Inr s2"
      by (cases "applyMove m PlayerO ?s") (auto simp: botMove_def)
    from c g ne ch mo s1 ap obtain win where w: "checkWinner s2 = Inr win"
      by (cases "checkWinner s2") (auto simp: botMove_def)
    from c g ne ch mo s1 ap w have "gstate g' = s2"
      by (auto simp: botMove_def endGame_def switchTurn_def cancelSelectAll_def split: if_splits)
    with generated_move_reachable[OF r wf m ap] show ?thesis by simp
  qed
qed

end
